theory Spec2Isabelle
  imports Main "HOL-Library.Word"
begin

section \<open>A fixed-size block allocator (blockAllocator.cpp) in HOL\<close>

text \<open>
  The allocator is modelled for a platform where \<open>size_t\<close> and pointers are 64 bits wide, so
  that \<open>sizeof(Block*) = 8\<close> (the header size behind the spacing \<open>64 + 8 = 72\<close> of the
  specification's example). Sizes and addresses are \<open>64 word\<close>: addition, subtraction and
  multiplication wrap, \<open>div\<close> and \<open>mod\<close> are the unsigned ones, and pointer comparison is the
  unsigned order.

  Memory is a store of pointer-sized cells: \<open>m a\<close> is the \<open>Block*\<close> read through a
  \<open>Block*\<close> whose value is \<open>a\<close> (the field \<open>next\<close> is at offset 0). The allocator reads and
  writes cells at block headers only; where the buffer lies in the address space these are
  at least 9 bytes apart (a block has at least 1 byte after its 8-byte header), so no two of
  them overlap. What callers store in the blocks they hold is outside the model: it touches
  no header as long as it stays inside the block.
\<close>

type_synonym addr = "64 word"
type_synonym memory = "addr \<Rightarrow> addr"

datatype MemoryPoolType = Internal | External

datatype error =
    InvalidConstructorParametersException
  | OutOfSystemMemoryException
  | OutOfAllocatableMemoryException
  | InvalidBlockAddressException

record BlockAllocator =
  blockSize :: "64 word"
  headerSize :: "64 word"
  maxBlocks :: "64 word"
  startHeader :: addr
  endHeader :: addr
  headHeader :: addr
  poolType :: MemoryPoolType
  blockInUseFlag :: addr
  blockWithHeaderSize :: "64 word"

type_synonym state = "BlockAllocator \<times> memory"

text \<open>\<open>NULL\<close>, \<open>std::numeric_limits<size_t>::max()\<close> and \<open>sizeof(Block*)\<close>.\<close>

definition NULL :: addr where
  "NULL = 0"

definition SIZE_MAX :: "64 word" where
  "SIZE_MAX = 18446744073709551615"

definition getHeaderSize :: "64 word" where
  "getHeaderSize = 8"

subsection \<open>Construction\<close>

definition isSizeCorrect :: "64 word \<Rightarrow> 64 word \<Rightarrow> 64 word \<Rightarrow> bool" where
  "isSizeCorrect hdrSize blockByteSize numOfBlocks =
     (let maxBlockWithHeaderSize = SIZE_MAX div numOfBlocks in
      if maxBlockWithHeaderSize < getHeaderSize then False
      else blockByteSize \<le> maxBlockWithHeaderSize - hdrSize)"

text \<open>
  The loop of \<open>buildBlocksList\<close>: \<open>for (i = startHeader; i < endHeader; i += blockWithHeaderSize)\<close>
  writes \<open>i + blockWithHeaderSize\<close> into the header at \<open>i\<close>. Nothing in the loop itself bounds
  the number of iterations, so the result is optional: \<open>None\<close> stands for a loop that never
  ends.
\<close>

partial_function (option) buildBlocksList_loop ::
  "addr \<Rightarrow> addr \<Rightarrow> 64 word \<Rightarrow> memory \<Rightarrow> memory option" where
  "buildBlocksList_loop i e stride m =
     (if i < e then buildBlocksList_loop (i + stride) e stride (m(i := i + stride))
      else Some m)"

definition buildBlocksList :: "BlockAllocator \<Rightarrow> memory \<Rightarrow> memory option" where
  "buildBlocksList p m =
     (case buildBlocksList_loop (startHeader p) (endHeader p) (blockWithHeaderSize p) m of
        None \<Rightarrow> None
      | Some m' \<Rightarrow> Some (m'(endHeader p := NULL)))"

text \<open>
  The constructor. \<open>isSizeCorrect\<close> reads the member \<open>headerSize\<close>, which the initialiser
  list has set by then; it is passed as the first argument. \<open>malloc\<close> is the raw memory
  provider, a parameter: it maps the requested size to the address it returns, \<open>NULL\<close> when
  it fails. \<open>memoryPool\<close> is the external buffer (\<open>NULL\<close> for none) and \<open>m\<close> the memory
  before the call. An exception leaves no object behind: the result is \<open>Inl\<close> of the error.
  The outer \<open>option\<close> is \<open>None\<close> when the loop of \<open>buildBlocksList\<close> does not end.
\<close>

definition BlockAllocator_new ::
  "64 word \<Rightarrow> 64 word \<Rightarrow> addr \<Rightarrow> (64 word \<Rightarrow> addr) \<Rightarrow> memory \<Rightarrow> (error + state) option" where
  "BlockAllocator_new blockByteSize numOfBlocks memoryPool malloc m =
     (let hs = getHeaderSize in
      if blockByteSize = 0 \<or> numOfBlocks = 0
      then Some (Inl InvalidConstructorParametersException)
      else if \<not> isSizeCorrect hs blockByteSize numOfBlocks
      then Some (Inl InvalidConstructorParametersException)
      else
        let stride = blockByteSize + hs in
        case (if memoryPool = NULL
              then (let start = malloc (stride * numOfBlocks) in
                    if start = NULL then Inl OutOfSystemMemoryException
                    else Inr (Internal, start))
              else Inr (External, memoryPool)) of
          Inl e \<Rightarrow> Some (Inl e)
        | Inr (ptype, start) \<Rightarrow>
            let p = \<lparr> blockSize = blockByteSize, headerSize = hs, maxBlocks = numOfBlocks,
                      startHeader = start, endHeader = start + stride * (numOfBlocks - 1),
                      headHeader = start, poolType = ptype, blockInUseFlag = 1,
                      blockWithHeaderSize = stride \<rparr>
            in case buildBlocksList p m of
                 None \<Rightarrow> None
               | Some m' \<Rightarrow> Some (Inr (p, m')))"

subsection \<open>Operations\<close>

text \<open>
  Each operation returns its outcome and the state after the call; an exception is the
  outcome \<open>Inl\<close>, with whatever state the call had reached when it threw.
\<close>

fun allocate :: "state \<Rightarrow> (error + addr) \<times> state" where
  "allocate (p, m) =
     (if headHeader p = NULL then (Inl OutOfAllocatableMemoryException, (p, m))
      else
        let freeBlock = headHeader p;
            p' = p\<lparr>headHeader := m freeBlock\<rparr>;
            m' = m(freeBlock := blockInUseFlag p)
        in (Inr (freeBlock + getHeaderSize), (p', m')))"

definition getBlockSize :: "BlockAllocator \<Rightarrow> 64 word" where
  "getBlockSize p = blockSize p"

definition getPoolType :: "BlockAllocator \<Rightarrow> MemoryPoolType" where
  "getPoolType p = poolType p"

definition isBlockAddress :: "BlockAllocator \<Rightarrow> addr \<Rightarrow> bool" where
  "isBlockAddress p block =
     (let header = block - headerSize p in
      if block = NULL \<or> header > endHeader p \<or> header < startHeader p then False
      else
        let reminder = (header - startHeader p) mod blockWithHeaderSize p in
        if reminder = 0 then True else False)"

definition isBlockInUse :: "BlockAllocator \<Rightarrow> memory \<Rightarrow> addr \<Rightarrow> bool" where
  "isBlockInUse p m block =
     (if \<not> isBlockAddress p block then False
      else
        let header = block - headerSize p in
        if m header = blockInUseFlag p then True else False)"

fun deallocate :: "state \<Rightarrow> addr \<Rightarrow> (error + unit) \<times> state" where
  "deallocate (p, m) block =
     (if \<not> isBlockInUse p m block then (Inl InvalidBlockAddressException, (p, m))
      else
        let header = block - headerSize p;
            m' = m(header := headHeader p);
            p' = p\<lparr>headHeader := header\<rparr>
        in (Inr (), (p', m')))"

text \<open>
  The destructor: the addresses it passes to \<open>std::free\<close>, in order, and the memory after
  it (it writes nothing).
\<close>

fun destructor :: "state \<Rightarrow> addr list \<times> memory" where
  "destructor (p, m) =
     (if poolType p = Internal \<and> startHeader p \<noteq> NULL then ([startHeader p], m)
      else ([], m))"

subsection \<open>Sequences of calls\<close>

datatype call = Allocate | Deallocate addr

fun step :: "state \<Rightarrow> call \<Rightarrow> state" where
  "step s Allocate = snd (allocate s)"
| "step s (Deallocate a) = snd (deallocate s a)"

definition run :: "state \<Rightarrow> call list \<Rightarrow> state" where
  "run s cs = foldl step s cs"

text \<open>\<open>allocate_n n s\<close>: \<open>n\<close> successive \<open>allocate()\<close> calls, stopping at the first exception.\<close>

fun allocate_n :: "nat \<Rightarrow> state \<Rightarrow> (error + addr list) \<times> state" where
  "allocate_n 0 s = (Inr [], s)"
| "allocate_n (Suc n) s =
     (case allocate s of
        (Inl e, s') \<Rightarrow> (Inl e, s')
      | (Inr a, s') \<Rightarrow>
          (case allocate_n n s' of
             (Inl e, s'') \<Rightarrow> (Inl e, s'')
           | (Inr as, s'') \<Rightarrow> (Inr (a # as), s'')))"

subsection \<open>Layout and free list, for stating the properties\<close>

text \<open>The header of block \<open>k\<close>, and the headers of the pool's \<open>maxBlocks\<close> blocks.\<close>

definition header_at :: "BlockAllocator \<Rightarrow> nat \<Rightarrow> addr" where
  "header_at p k = startHeader p + of_nat k * blockWithHeaderSize p"

definition headers :: "BlockAllocator \<Rightarrow> addr set" where
  "headers p = header_at p ` {k. k < unat (maxBlocks p)}"

text \<open>
  What the constructor establishes about the members that no later call writes: everything
  but \<open>headHeader\<close>.
\<close>

definition constructed :: "BlockAllocator \<Rightarrow> bool" where
  "constructed p \<longleftrightarrow>
     headerSize p = 8 \<and> blockInUseFlag p = 1 \<and>
     blockSize p \<noteq> 0 \<and> maxBlocks p \<noteq> 0 \<and>
     (unat (blockSize p) + 8) * unat (maxBlocks p) < 2 ^ 64 \<and>
     blockWithHeaderSize p = blockSize p + 8 \<and>
     endHeader p = startHeader p + blockWithHeaderSize p * (maxBlocks p - 1) \<and>
     startHeader p \<noteq> 0"

text \<open>
  The assumption on the buffer, which the constructor cannot check: its
  \<open>blockWithHeaderSize * maxBlocks\<close> bytes from \<open>startHeader\<close> on are addresses, so they do not
  run past the end of the address space.
\<close>

definition buffer_in_memory :: "BlockAllocator \<Rightarrow> bool" where
  "buffer_in_memory p \<longleftrightarrow>
     unat (startHeader p) + unat (blockWithHeaderSize p) * unat (maxBlocks p) \<le> 2 ^ 64"

text \<open>
  \<open>free_chain m h fl\<close>: following \<open>next\<close> from \<open>h\<close> in memory \<open>m\<close> visits exactly the
  headers \<open>fl\<close>, in this order, and then reaches \<open>NULL\<close>.
\<close>

fun free_chain :: "memory \<Rightarrow> addr \<Rightarrow> addr list \<Rightarrow> bool" where
  "free_chain m h [] \<longleftrightarrow> h = NULL"
| "free_chain m h (x # xs) \<longleftrightarrow> h = x \<and> x \<noteq> NULL \<and> free_chain m (m x) xs"

text \<open>
  The free-list invariant: the chain from \<open>headHeader\<close> is finite, ends at \<open>NULL\<close>, repeats no
  block, runs over block headers only, none of them stamped in use, and every block header
  off the chain holds the in-use marker.
\<close>

definition free_list_inv :: "state \<Rightarrow> bool" where
  "free_list_inv s \<longleftrightarrow>
     (\<exists>fl. free_chain (snd s) (headHeader (fst s)) fl \<and> distinct fl \<and>
           set fl \<subseteq> headers (fst s) \<and>
           (\<forall>h \<in> set fl. snd s h \<noteq> blockInUseFlag (fst s)) \<and>
           (\<forall>h \<in> headers (fst s) - set fl. snd s h = blockInUseFlag (fst s)))"

subsection \<open>An example pool\<close>

text \<open>
  The pool of 4 blocks of 64 bytes over an external buffer at address 4096, as the
  constructor leaves it in a memory that held zeros: its members and the four headers.
\<close>

definition pool_64x4 :: BlockAllocator where
  "pool_64x4 =
     \<lparr> blockSize = 64, headerSize = 8, maxBlocks = 4, startHeader = 4096, endHeader = 4312,
       headHeader = 4096, poolType = External, blockInUseFlag = 1, blockWithHeaderSize = 72 \<rparr>"

definition memory_64x4 :: memory where
  "memory_64x4 = (\<lambda>_. 0)(4096 := 4168, 4168 := 4240, 4240 := 4312, 4312 := 0)"

subsection \<open>Construction: termination and the size check\<close>

lemma loop_terminates_aux:
  "\<exists>m'. buildBlocksList_loop (e - of_nat k * s) e s m = Some m'"
proof (induction k arbitrary: m)
  case 0
  show ?case by (subst buildBlocksList_loop.simps) simp
next
  case (Suc k)
  have eq: "e - of_nat (Suc k) * s + s = e - of_nat k * s"
    by (simp add: algebra_simps)
  show ?case
  proof (cases "e - of_nat (Suc k) * s < e")
    case True
    then show ?thesis
      using Suc.IH [of "m(e - of_nat (Suc k) * s := e - of_nat k * s)"]
      by (subst buildBlocksList_loop.simps) (simp only: eq if_True)
  next
    case False
    then show ?thesis by (subst buildBlocksList_loop.simps) simp
  qed
qed

lemma buildBlocksList_loop_terminates:
  "\<exists>m'. buildBlocksList_loop start (start + stride * (n - 1)) stride m = Some m'"
proof -
  have "start + stride * (n - 1) - of_nat (unat (n - 1)) * stride = start"
    by simp
  then show ?thesis
    using loop_terminates_aux [of "start + stride * (n - 1)" "unat (n - 1)" stride m]
    by simp
qed

lemma isSizeCorrect_iff:
  assumes "numOfBlocks \<noteq> 0"
  shows "isSizeCorrect getHeaderSize blockByteSize numOfBlocks
         \<longleftrightarrow> (unat blockByteSize + 8) * unat numOfBlocks < 2 ^ 64"
proof -
  let ?n = "unat numOfBlocks"
  let ?q = "(2 ^ 64 - 1) div ?n"
  have n: "0 < ?n" using assms by (simp add: unat_gt_0)
  have q: "unat (SIZE_MAX div numOfBlocks) = ?q"
    by (simp add: SIZE_MAX_def unat_div)
  have iff: "\<And>a. a \<le> ?q \<longleftrightarrow> a * ?n < 2 ^ 64"
    using n by (simp add: less_eq_div_iff_mult_less_eq) arith
  show ?thesis
  proof (cases "SIZE_MAX div numOfBlocks < getHeaderSize")
    case True
    then have "?q < 8" using q by (simp add: word_less_nat_alt getHeaderSize_def)
    then have "\<not> (unat blockByteSize + 8 \<le> ?q)" by simp
    then show ?thesis using True iff by (simp add: isSizeCorrect_def)
  next
    case False
    then have ge: "8 \<le> ?q" using q by (simp add: word_less_nat_alt getHeaderSize_def)
    then have "(8::64 word) \<le> SIZE_MAX div numOfBlocks"
      using q by (simp add: word_le_nat_alt)
    then have "unat (SIZE_MAX div numOfBlocks - 8) = ?q - 8"
      using q by (simp add: unat_sub)
    then have "blockByteSize \<le> SIZE_MAX div numOfBlocks - getHeaderSize
               \<longleftrightarrow> unat blockByteSize + 8 \<le> ?q"
      using ge by (simp add: word_le_nat_alt getHeaderSize_def) arith
    then show ?thesis using False iff by (simp add: isSizeCorrect_def)
  qed
qed

subsection \<open>Address arithmetic without wrap-around\<close>

lemma unat_add64:
  fixes x y :: "64 word"
  shows "unat x + unat y < 2 ^ 64 \<Longrightarrow> unat (x + y) = unat x + unat y"
  using unat_add_lem [of x y] by simp

lemma unat_mult64:
  fixes x y :: "64 word"
  shows "unat x * unat y < 2 ^ 64 \<Longrightarrow> unat (x * y) = unat x * unat y"
  using unat_mult_lem [of x y] by simp

lemma unat_of_nat64: "k < 2 ^ 64 \<Longrightarrow> unat (of_nat k :: 64 word) = k"
  by (simp add: unat_of_nat)

lemma unat_lt64: "unat (x :: 64 word) < 2 ^ 64"
  using unsigned_less [of x, where ?'a = nat] by simp

lemma unat_stride:
  assumes "constructed p"
  shows "unat (blockWithHeaderSize p) = unat (blockSize p) + 8"
proof -
  have m: "1 \<le> unat (maxBlocks p)"
    using assms unat_gt_0 [of "maxBlocks p"] unfolding constructed_def by linarith
  have "(unat (blockSize p) + 8) * 1 \<le> (unat (blockSize p) + 8) * unat (maxBlocks p)"
    using m by (rule mult_le_mono2)
  moreover have "(unat (blockSize p) + 8) * unat (maxBlocks p) < 2 ^ 64"
    using assms unfolding constructed_def by blast
  ultimately have "unat (blockSize p) + 8 < (2 ^ 64 :: nat)"
    unfolding mult_1_right by (rule le_less_trans)
  then have "unat (blockSize p) + unat (8 :: 64 word) < 2 ^ 64"
    by simp
  then have "unat (blockSize p + 8) = unat (blockSize p) + unat (8 :: 64 word)"
    by (rule unat_add64)
  moreover have "blockWithHeaderSize p = blockSize p + 8"
    using assms unfolding constructed_def by blast
  ultimately show ?thesis by simp
qed

lemma stride_ge_9:
  assumes "constructed p"
  shows "9 \<le> unat (blockWithHeaderSize p)"
proof -
  have "1 \<le> unat (blockSize p)"
    using assms unat_gt_0 [of "blockSize p"] unfolding constructed_def by linarith
  then show ?thesis using unat_stride [OF assms] by linarith
qed

lemma unat_header_at:
  assumes c: "constructed p" and b: "buffer_in_memory p" and k: "k < unat (maxBlocks p)"
  shows "unat (header_at p k) = unat (startHeader p) + k * unat (blockWithHeaderSize p)"
proof -
  define S where "S = unat (blockWithHeaderSize p)"
  define M where "M = unat (maxBlocks p)"
  define A where "A = unat (startHeader p)"
  have S: "9 \<le> S" using stride_ge_9 [OF c] by (simp add: S_def)
  have AM: "A + S * M \<le> 2 ^ 64"
    using b by (simp add: buffer_in_memory_def S_def M_def A_def)
  have "Suc k * S \<le> M * S" using k unfolding M_def by (intro mult_le_mono1) simp
  then have lt: "A + k * S + S \<le> 2 ^ 64"
    using AM by (simp add: mult.commute)
  have kk: "unat (of_nat k :: 64 word) = k"
    using k unat_lt64 [of "maxBlocks p"] by (intro unat_of_nat64) simp
  have "unat (of_nat k :: 64 word) * unat (blockWithHeaderSize p) < 2 ^ 64"
    using lt S unfolding kk S_def [symmetric] by linarith
  then have ks: "unat (of_nat k * blockWithHeaderSize p) = k * S"
    unfolding S_def using kk unat_mult64 by metis
  have "unat (startHeader p) + unat (of_nat k * blockWithHeaderSize p) < 2 ^ 64"
    unfolding ks A_def [symmetric] using lt S by linarith
  then have "unat (startHeader p + of_nat k * blockWithHeaderSize p) = A + k * S"
    unfolding A_def using ks unat_add64 by metis
  then show ?thesis by (simp add: header_at_def A_def S_def)
qed

lemma header_at_inj:
  assumes "constructed p" "buffer_in_memory p" "j < unat (maxBlocks p)" "k < unat (maxBlocks p)"
    and "header_at p j = header_at p k"
  shows "j = k"
proof -
  have "unat (startHeader p) + j * unat (blockWithHeaderSize p)
        = unat (startHeader p) + k * unat (blockWithHeaderSize p)"
    using unat_header_at [OF assms(1,2,3)] unat_header_at [OF assms(1,2,4)] assms(5)
    by metis
  then have "j * unat (blockWithHeaderSize p) = k * unat (blockWithHeaderSize p)"
    by linarith
  moreover have "0 < unat (blockWithHeaderSize p)" using stride_ge_9 [OF assms(1)] by linarith
  ultimately show ?thesis by simp
qed

lemma header_at_neq_0:
  assumes "constructed p" "buffer_in_memory p" "k < unat (maxBlocks p)"
  shows "header_at p k \<noteq> 0"
proof -
  have "startHeader p \<noteq> 0" using assms(1) unfolding constructed_def by blast
  then have "0 < unat (startHeader p)" by (simp add: unat_gt_0)
  then have "0 < unat (header_at p k)" using assms by (simp add: unat_header_at)
  then show ?thesis by (simp add: unat_gt_0)
qed

lemma header_at_Suc: "header_at p k + blockWithHeaderSize p = header_at p (Suc k)"
  by (simp add: header_at_def algebra_simps)

lemma endHeader_last:
  assumes "constructed p"
  shows "endHeader p = header_at p (unat (maxBlocks p) - 1)"
proof -
  have "1 \<le> unat (maxBlocks p)"
    using assms unat_gt_0 [of "maxBlocks p"] unfolding constructed_def by linarith
  then have "(of_nat (unat (maxBlocks p) - 1) :: 64 word) = maxBlocks p - 1"
    by (simp add: of_nat_diff)
  moreover have "endHeader p = startHeader p + blockWithHeaderSize p * (maxBlocks p - 1)"
    using assms unfolding constructed_def by blast
  ultimately show ?thesis by (simp add: header_at_def mult.commute)
qed

subsection \<open>What the constructor returns\<close>

lemma buildBlocksList_terminates:
  assumes "endHeader p = startHeader p + blockWithHeaderSize p * (maxBlocks p - 1)"
  shows "\<exists>m'. buildBlocksList p m = Some m'"
  using buildBlocksList_loop_terminates [of "startHeader p" "blockWithHeaderSize p" "maxBlocks p" m]
  by (auto simp: buildBlocksList_def assms)

lemma BlockAllocator_new_total:
  "\<exists>r. BlockAllocator_new blockByteSize numOfBlocks memoryPool malloc m = Some r"
proof -
  let ?stride = "blockByteSize + getHeaderSize"
  have "\<exists>m'. buildBlocksList
          \<lparr> blockSize = blockByteSize, headerSize = getHeaderSize, maxBlocks = numOfBlocks,
            startHeader = start, endHeader = start + ?stride * (numOfBlocks - 1),
            headHeader = start, poolType = t, blockInUseFlag = 1,
            blockWithHeaderSize = ?stride \<rparr> m = Some m'" for start t
    by (rule buildBlocksList_terminates) simp
  then have built: "buildBlocksList
          \<lparr> blockSize = blockByteSize, headerSize = getHeaderSize, maxBlocks = numOfBlocks,
            startHeader = start, endHeader = start + ?stride * (numOfBlocks - 1),
            headHeader = start, poolType = t, blockInUseFlag = 1,
            blockWithHeaderSize = ?stride \<rparr> m \<noteq> None" for start t
    by simp
  show ?thesis
    by (cases "memoryPool = NULL")
       (auto simp: BlockAllocator_new_def Let_def built split: option.splits)
qed

lemma BlockAllocator_new_invalid_iff:
  "BlockAllocator_new blockByteSize numOfBlocks memoryPool malloc m
     = Some (Inl InvalidConstructorParametersException)
   \<longleftrightarrow> blockByteSize = 0 \<or> numOfBlocks = 0
       \<or> \<not> isSizeCorrect getHeaderSize blockByteSize numOfBlocks"
  by (auto simp: BlockAllocator_new_def Let_def split: prod.splits option.splits if_splits)

lemma BlockAllocator_new_Inr:
  assumes "BlockAllocator_new blockByteSize numOfBlocks memoryPool malloc m = Some (Inr (p, m'))"
  shows "constructed p" and "blockSize p = blockByteSize" and "maxBlocks p = numOfBlocks"
    and "headHeader p = startHeader p"
    and "poolType p = (if memoryPool = NULL then Internal else External)"
    and "startHeader p =
           (if memoryPool = NULL then malloc ((blockByteSize + 8) * numOfBlocks) else memoryPool)"
    and "buildBlocksList p m = Some m'"
proof -
  from assms have nz: "blockByteSize \<noteq> 0" "numOfBlocks \<noteq> 0"
    and ok: "isSizeCorrect getHeaderSize blockByteSize numOfBlocks"
    by (auto simp: BlockAllocator_new_def Let_def split: if_splits)
  have bound: "(unat blockByteSize + 8) * unat numOfBlocks < 2 ^ 64"
    using ok isSizeCorrect_iff [OF nz(2)] by simp
  from assms nz ok show "blockSize p = blockByteSize" "maxBlocks p = numOfBlocks"
    "headHeader p = startHeader p"
    "poolType p = (if memoryPool = NULL then Internal else External)"
    "startHeader p =
           (if memoryPool = NULL then malloc ((blockByteSize + 8) * numOfBlocks) else memoryPool)"
    "buildBlocksList p m = Some m'"
    by (auto simp: BlockAllocator_new_def Let_def getHeaderSize_def
             split: prod.splits option.splits if_splits)
  from assms nz ok bound show "constructed p"
    by (auto simp: BlockAllocator_new_def Let_def getHeaderSize_def constructed_def NULL_def
             split: prod.splits option.splits if_splits)
qed

subsection \<open>Block addresses\<close>

lemma isBlockAddress_header_at:
  assumes c: "constructed p" and b: "buffer_in_memory p" and k: "k < unat (maxBlocks p)"
  shows "isBlockAddress p (header_at p k + 8)"
proof -
  define S where "S = unat (blockWithHeaderSize p)"
  define M where "M = unat (maxBlocks p)"
  define A where "A = unat (startHeader p)"
  define h where "h = header_at p k"
  have S: "9 \<le> S" using stride_ge_9 [OF c] by (simp add: S_def)
  have AM: "A + S * M \<le> 2 ^ 64"
    using b by (simp add: buffer_in_memory_def S_def M_def A_def)
  have uh: "unat h = A + k * S"
    using unat_header_at [OF c b k] by (simp add: h_def A_def S_def)
  have "Suc k * S \<le> M * S" using k unfolding M_def by (intro mult_le_mono1) simp
  then have lt: "A + k * S + S \<le> 2 ^ 64"
    using AM by (simp add: mult.commute)
  have "unat h + unat (8 :: 64 word) < 2 ^ 64" using uh lt S by simp
  then have "unat (h + 8) = unat h + unat (8 :: 64 word)" by (rule unat_add64)
  then have "0 < unat (h + 8)" by simp
  then have nz: "h + 8 \<noteq> NULL" by (simp add: unat_gt_0 NULL_def)
  have hs: "h + 8 - headerSize p = h" using c by (simp add: constructed_def)
  have "M - 1 < M" using k by (simp add: M_def)
  then have ue: "unat (endHeader p) = A + (M - 1) * S"
    using unat_header_at [OF c b, of "M - 1"] endHeader_last [OF c]
    by (simp add: A_def S_def M_def)
  have "k \<le> M - 1" using k by (simp add: M_def)
  then have "k * S \<le> (M - 1) * S" by (rule mult_le_mono1)
  then have "unat h \<le> unat (endHeader p)" unfolding uh ue by linarith
  then have le_end: "\<not> endHeader p < h" unfolding word_less_nat_alt by linarith
  have ge_start: "\<not> h < startHeader p" using uh by (simp add: word_less_nat_alt A_def)
  then have "startHeader p \<le> h" by simp
  then have "unat (h - startHeader p) = k * S" using uh by (simp add: unat_sub A_def)
  then have "unat ((h - startHeader p) mod blockWithHeaderSize p) = 0"
    by (simp add: unat_mod S_def)
  then have "(h - startHeader p) mod blockWithHeaderSize p = 0"
    by (simp add: unat_eq_0)
  then show ?thesis
    using nz hs le_end ge_start by (simp add: isBlockAddress_def Let_def h_def)
qed

lemma isBlockAddress_is_header:
  assumes c: "constructed p" and b: "buffer_in_memory p" and ok: "isBlockAddress p a"
  shows "\<exists>k < unat (maxBlocks p). a - 8 = header_at p k"
proof -
  define S where "S = unat (blockWithHeaderSize p)"
  define M where "M = unat (maxBlocks p)"
  define A where "A = unat (startHeader p)"
  define h where "h = a - 8"
  have hs: "a - headerSize p = h" using c by (simp add: constructed_def h_def)
  have S: "9 \<le> S" using stride_ge_9 [OF c] by (simp add: S_def)
  have M: "1 \<le> M"
    using c unat_gt_0 [of "maxBlocks p"] unfolding constructed_def M_def by linarith
  from ok hs have le_end: "\<not> endHeader p < h" and ge_start: "\<not> h < startHeader p"
    and md: "(h - startHeader p) mod blockWithHeaderSize p = 0"
    by (auto simp: isBlockAddress_def Let_def split: if_splits)
  have "M - 1 < M" using M by simp
  then have ue: "unat (endHeader p) = A + (M - 1) * S"
    using unat_header_at [OF c b, of "M - 1"] endHeader_last [OF c]
    by (simp add: A_def S_def M_def)
  have lo: "A \<le> unat h" using ge_start by (simp add: word_less_nat_alt A_def)
  have hi: "unat h \<le> A + (M - 1) * S" using le_end ue by (simp add: word_less_nat_alt)
  have "startHeader p \<le> h" using ge_start by simp
  then have d: "unat (h - startHeader p) = unat h - A" by (simp add: unat_sub A_def)
  have "unat ((h - startHeader p) mod blockWithHeaderSize p) = 0" using md by simp
  then have "(unat h - A) mod S = 0" using d by (simp add: unat_mod S_def)
  then obtain k where kd: "unat h - A = S * k" by (auto simp: mod_eq_0_iff_dvd)
  have uhk: "unat h = A + S * k" using kd lo by linarith
  have "(M - 1) * S = S * (M - 1)" by (rule mult.commute)
  then have "S * k \<le> S * (M - 1)" using hi uhk by linarith
  moreover have "0 < S" using S by linarith
  ultimately have "k \<le> M - 1" by (metis nat_mult_le_cancel1)
  then have kM: "k < unat (maxBlocks p)" using M by (simp add: M_def)
  have "unat h = A + k * S" using uhk by (simp add: mult.commute)
  then have "unat h = unat (header_at p k)"
    using unat_header_at [OF c b kM] by (simp add: A_def S_def)
  then have "h = header_at p k" by (simp add: word_unat_eq_iff)
  then show ?thesis using kM by (auto simp: h_def)
qed

lemma isBlockAddress_iff:
  assumes "constructed p" "buffer_in_memory p"
  shows "isBlockAddress p a \<longleftrightarrow> (\<exists>k < unat (maxBlocks p). a = header_at p k + 8)"
proof
  assume "isBlockAddress p a"
  then obtain k where "k < unat (maxBlocks p)" "a - 8 = header_at p k"
    using isBlockAddress_is_header [OF assms] by blast
  moreover from this have "a = header_at p k + 8" by (simp add: algebra_simps)
  ultimately show "\<exists>k < unat (maxBlocks p). a = header_at p k + 8" by blast
next
  assume "\<exists>k < unat (maxBlocks p). a = header_at p k + 8"
  then show "isBlockAddress p a" using isBlockAddress_header_at [OF assms] by blast
qed

subsection \<open>The memory that \<open>buildBlocksList\<close> leaves\<close>

lemma header_at_less_end:
  assumes c: "constructed p" and b: "buffer_in_memory p" and j: "Suc j < unat (maxBlocks p)"
  shows "header_at p j < endHeader p"
proof -
  define M where "M = unat (maxBlocks p)"
  have j': "j < unat (maxBlocks p)" and l: "M - 1 < unat (maxBlocks p)"
    using j by (simp_all add: M_def)
  have "0 < unat (blockWithHeaderSize p)" using stride_ge_9 [OF c] by linarith
  moreover have "j < M - 1" using j by (simp add: M_def)
  ultimately have "j * unat (blockWithHeaderSize p) < (M - 1) * unat (blockWithHeaderSize p)"
    by simp
  then have "unat (header_at p j) < unat (header_at p (M - 1))"
    unfolding unat_header_at [OF c b j'] unat_header_at [OF c b l] by linarith
  then show ?thesis
    using endHeader_last [OF c] by (simp add: word_less_nat_alt M_def)
qed

lemma buildBlocksList_loop_result:
  assumes c: "constructed p" and b: "buffer_in_memory p"
  shows "n = unat (maxBlocks p) - 1 - j \<Longrightarrow> j < unat (maxBlocks p) \<Longrightarrow>
    \<exists>m'. buildBlocksList_loop (header_at p j) (endHeader p) (blockWithHeaderSize p) m = Some m'
        \<and> (\<forall>k. j \<le> k \<and> Suc k < unat (maxBlocks p) \<longrightarrow> m' (header_at p k) = header_at p (Suc k))
        \<and> (\<forall>a. a \<notin> header_at p ` {k. j \<le> k \<and> Suc k < unat (maxBlocks p)} \<longrightarrow> m' a = m a)"
proof (induction n arbitrary: j m)
  case 0
  then have "j = unat (maxBlocks p) - 1" by simp
  then have "header_at p j = endHeader p" using endHeader_last [OF c] by simp
  moreover have "\<not> Suc k < unat (maxBlocks p)" if "j \<le> k" for k
    using that \<open>j = unat (maxBlocks p) - 1\<close> by simp
  ultimately show ?case
    by (subst buildBlocksList_loop.simps) auto
next
  case (Suc n)
  let ?M = "unat (maxBlocks p)"
  let ?m1 = "m(header_at p j := header_at p (Suc j))"
  from Suc.prems have sj: "Suc j < ?M" and n: "n = ?M - 1 - Suc j" by simp_all
  have lt: "header_at p j < endHeader p" by (rule header_at_less_end [OF c b sj])
  obtain m' where
    run: "buildBlocksList_loop (header_at p (Suc j)) (endHeader p) (blockWithHeaderSize p) ?m1
            = Some m'"
    and links: "\<And>k. Suc j \<le> k \<Longrightarrow> Suc k < ?M \<Longrightarrow> m' (header_at p k) = header_at p (Suc k)"
    and frame: "\<And>a. a \<notin> header_at p ` {k. Suc j \<le> k \<and> Suc k < ?M} \<Longrightarrow> m' a = ?m1 a"
    using Suc.IH [OF n sj, of ?m1] by blast
  have step: "buildBlocksList_loop (header_at p j) (endHeader p) (blockWithHeaderSize p) m
                = Some m'"
    using lt run by (subst buildBlocksList_loop.simps) (simp add: header_at_Suc)
  have notin: "header_at p j \<notin> header_at p ` {k. Suc j \<le> k \<and> Suc k < ?M}"
  proof
    assume "header_at p j \<in> header_at p ` {k. Suc j \<le> k \<and> Suc k < ?M}"
    then obtain k where k: "Suc j \<le> k" "Suc k < ?M" "header_at p j = header_at p k" by blast
    then have "j = k" using header_at_inj [OF c b, of j k] sj by simp
    then show False using k(1) by simp
  qed
  have first: "m' (header_at p j) = header_at p (Suc j)"
    using frame [OF notin] by simp
  have l: "m' (header_at p k) = header_at p (Suc k)" if "j \<le> k" "Suc k < ?M" for k
  proof (cases "k = j")
    case True
    then show ?thesis using first by simp
  next
    case False
    then show ?thesis using that links [of k] by simp
  qed
  have f: "m' a = m a" if "a \<notin> header_at p ` {k. j \<le> k \<and> Suc k < ?M}" for a
  proof -
    have "a \<noteq> header_at p j" using that sj by blast
    moreover have "a \<notin> header_at p ` {k. Suc j \<le> k \<and> Suc k < ?M}" using that by auto
    ultimately show ?thesis using frame [of a] by simp
  qed
  show ?case using step l f by blast
qed

lemma buildBlocksList_result:
  assumes c: "constructed p" and b: "buffer_in_memory p"
    and built: "buildBlocksList p m = Some m'"
  shows "\<And>k. Suc k < unat (maxBlocks p) \<Longrightarrow> m' (header_at p k) = header_at p (Suc k)"
    and "m' (header_at p (unat (maxBlocks p) - 1)) = NULL"
    and "\<And>a. a \<notin> headers p \<Longrightarrow> m' a = m a"
proof -
  let ?M = "unat (maxBlocks p)"
  have M: "0 < ?M" using c unat_gt_0 [of "maxBlocks p"] unfolding constructed_def by blast
  have s0: "header_at p 0 = startHeader p" by (simp add: header_at_def)
  obtain m1 where
    run: "buildBlocksList_loop (startHeader p) (endHeader p) (blockWithHeaderSize p) m = Some m1"
    and links: "\<And>k. Suc k < ?M \<Longrightarrow> m1 (header_at p k) = header_at p (Suc k)"
    and frame: "\<And>a. a \<notin> header_at p ` {k. 0 \<le> k \<and> Suc k < ?M} \<Longrightarrow> m1 a = m a"
    using buildBlocksList_loop_result [OF c b refl M, of m] unfolding s0 by auto
  have m': "m' = m1(endHeader p := NULL)"
    using built run by (simp add: buildBlocksList_def)
  show "m' (header_at p k) = header_at p (Suc k)" if "Suc k < ?M" for k
  proof -
    have "header_at p k \<noteq> endHeader p"
      using header_at_less_end [OF c b that] by auto
    then show ?thesis using links [OF that] m' by simp
  qed
  show "m' (header_at p (?M - 1)) = NULL"
    using m' endHeader_last [OF c] by simp
  show "m' a = m a" if "a \<notin> headers p" for a
  proof -
    have "a \<noteq> endHeader p"
      using that M endHeader_last [OF c] by (auto simp: headers_def)
    moreover have "a \<notin> header_at p ` {k. 0 \<le> k \<and> Suc k < ?M}"
      using that by (auto simp: headers_def)
    ultimately show ?thesis using frame [of a] m' by simp
  qed
qed

subsection \<open>Chains\<close>

lemma free_chain_upd:
  "a \<notin> set fl \<Longrightarrow> free_chain (m(a := v)) h fl = free_chain m h fl"
  by (induction fl arbitrary: h) auto

lemma free_chain_head:
  "free_chain m h fl \<Longrightarrow> h = NULL \<or> h \<in> set fl"
  by (cases fl) auto

lemma free_chain_next:
  "free_chain m h fl \<Longrightarrow> x \<in> set fl \<Longrightarrow> m x = NULL \<or> m x \<in> set fl"
proof (induction fl arbitrary: h)
  case Nil
  then show ?case by simp
next
  case (Cons y ys)
  then show ?case using free_chain_head [of m "m y" ys] by auto
qed

lemma free_chain_unique:
  "free_chain m h fl \<Longrightarrow> free_chain m h fl' \<Longrightarrow> fl = fl'"
proof (induction fl arbitrary: h fl')
  case Nil
  then show ?case by (cases fl') auto
next
  case (Cons y ys)
  then show ?case by (cases fl') auto
qed

lemma fresh_chain:
  assumes c: "constructed p" and b: "buffer_in_memory p"
    and links: "\<And>k. Suc k < unat (maxBlocks p) \<Longrightarrow> m (header_at p k) = header_at p (Suc k)"
    and last: "m (header_at p (unat (maxBlocks p) - 1)) = NULL"
  shows "n = unat (maxBlocks p) - j \<Longrightarrow> j < unat (maxBlocks p) \<Longrightarrow>
         free_chain m (header_at p j) (map (header_at p) [j ..< unat (maxBlocks p)])"
proof (induction n arbitrary: j)
  case 0
  then show ?case by simp
next
  case (Suc n)
  let ?M = "unat (maxBlocks p)"
  have nz: "header_at p j \<noteq> NULL"
    using header_at_neq_0 [OF c b Suc.prems(2)] by (simp add: NULL_def)
  have up: "[j ..< ?M] = j # [Suc j ..< ?M]"
    using Suc.prems(2) by (simp add: upt_conv_Cons)
  show ?case
  proof (cases "Suc j < ?M")
    case True
    then have "free_chain m (header_at p (Suc j)) (map (header_at p) [Suc j ..< ?M])"
      using Suc.IH [of "Suc j"] Suc.prems by simp
    then show ?thesis using nz up links [OF True] by simp
  next
    case False
    then have "j = ?M - 1" using Suc.prems(2) by simp
    then show ?thesis using nz up last False by simp
  qed
qed

lemma distinct_headers:
  assumes "constructed p" "buffer_in_memory p"
  shows "distinct (map (header_at p) [0 ..< unat (maxBlocks p)])"
  using header_at_inj [OF assms] by (auto simp: distinct_map inj_on_def)

lemma set_headers: "set (map (header_at p) [0 ..< unat (maxBlocks p)]) = headers p"
  by (auto simp: headers_def)

lemma in_use_flag_not_header:
  assumes c: "constructed p" and b: "buffer_in_memory p" and s: "startHeader p \<noteq> 1"
  shows "blockInUseFlag p \<notin> headers p"
proof
  assume "blockInUseFlag p \<in> headers p"
  then obtain k where k: "k < unat (maxBlocks p)" "header_at p k = 1"
    using c by (auto simp: headers_def constructed_def)
  have "startHeader p \<noteq> 0" using c unfolding constructed_def by blast
  then have "unat (startHeader p) \<noteq> 0" by (simp add: unat_eq_0)
  moreover have "unat (startHeader p) \<noteq> unat (1 :: 64 word)"
    using s unfolding word_unat_eq_iff [symmetric] .
  ultimately have "unat (startHeader p) \<noteq> 0" "unat (startHeader p) \<noteq> 1"
    by simp_all
  then have "1 < unat (header_at p k)"
    unfolding unat_header_at [OF c b k(1)] by linarith
  then show False using k(2) by simp
qed

subsection \<open>Only \<open>headHeader\<close> changes after construction\<close>

lemma constructed_head [simp]: "constructed (p\<lparr>headHeader := h\<rparr>) = constructed p"
  by (simp add: constructed_def)

lemma buffer_in_memory_head [simp]:
  "buffer_in_memory (p\<lparr>headHeader := h\<rparr>) = buffer_in_memory p"
  by (simp add: buffer_in_memory_def)

lemma headers_head [simp]: "headers (p\<lparr>headHeader := h\<rparr>) = headers p"
  by (simp add: headers_def header_at_def)

lemma isBlockAddress_head [simp]:
  "isBlockAddress (p\<lparr>headHeader := h\<rparr>) a = isBlockAddress p a"
  by (simp add: isBlockAddress_def)

lemma allocate_fst: "\<exists>h. fst (snd (allocate s)) = (fst s)\<lparr>headHeader := h\<rparr>"
proof (cases s)
  case (Pair p m)
  show ?thesis
  proof (cases "headHeader p = NULL")
    case True
    then have "fst (snd (allocate s)) = (fst s)\<lparr>headHeader := headHeader p\<rparr>"
      using Pair by simp
    then show ?thesis ..
  next
    case False
    then have "fst (snd (allocate s)) = (fst s)\<lparr>headHeader := m (headHeader p)\<rparr>"
      using Pair by (simp add: Let_def)
    then show ?thesis ..
  qed
qed

lemma deallocate_fst: "\<exists>h. fst (snd (deallocate s a)) = (fst s)\<lparr>headHeader := h\<rparr>"
proof (cases s)
  case (Pair p m)
  show ?thesis
  proof (cases "isBlockInUse p m a")
    case False
    then have "fst (snd (deallocate s a)) = (fst s)\<lparr>headHeader := headHeader p\<rparr>"
      using Pair by simp
    then show ?thesis ..
  next
    case True
    then have "fst (snd (deallocate s a)) = (fst s)\<lparr>headHeader := a - headerSize p\<rparr>"
      using Pair by (simp add: Let_def)
    then show ?thesis ..
  qed
qed

lemma step_fst: "\<exists>h. fst (step s c) = (fst s)\<lparr>headHeader := h\<rparr>"
  by (cases c) (simp_all add: allocate_fst deallocate_fst)

lemma run_fst: "\<exists>h. fst (run s cs) = (fst s)\<lparr>headHeader := h\<rparr>"
proof (induction cs arbitrary: s)
  case Nil
  have "fst (run s []) = (fst s)\<lparr>headHeader := headHeader (fst s)\<rparr>"
    by (simp add: run_def)
  then show ?case ..
next
  case (Cons c cs)
  obtain h where h: "fst (step s c) = (fst s)\<lparr>headHeader := h\<rparr>"
    using step_fst by blast
  obtain h' where "fst (run (step s c) cs) = (fst (step s c))\<lparr>headHeader := h'\<rparr>"
    using Cons.IH by blast
  then have "fst (run s (c # cs)) = (fst s)\<lparr>headHeader := h'\<rparr>"
    using h by (simp add: run_def)
  then show ?case ..
qed

lemma run_snoc: "run s (cs @ [c]) = step (run s cs) c"
  by (simp add: run_def)

subsection \<open>The free-list invariant\<close>

lemma free_list_inv_fresh:
  assumes c: "constructed p" and b: "buffer_in_memory p"
    and flag: "blockInUseFlag p \<notin> headers p"
    and h: "headHeader p = startHeader p"
    and built: "buildBlocksList p m0 = Some m"
  shows "free_list_inv (p, m)"
proof -
  let ?M = "unat (maxBlocks p)"
  let ?fl = "map (header_at p) [0 ..< ?M]"
  have M: "0 < ?M" using c unat_gt_0 [of "maxBlocks p"] unfolding constructed_def by blast
  have f1: "blockInUseFlag p \<noteq> NULL" using c by (simp add: constructed_def NULL_def)
  have "free_chain m (header_at p 0) ?fl"
    using fresh_chain [OF c b buildBlocksList_result(1,2) [OF c b built] refl M] by simp
  then have chain: "free_chain m (headHeader p) ?fl"
    using h by (simp add: header_at_def)
  have "m x \<noteq> blockInUseFlag p" if "x \<in> set ?fl" for x
    using free_chain_next [OF chain that] flag f1 set_headers [of p] by auto
  then show ?thesis
    unfolding free_list_inv_def
    using chain distinct_headers [OF c b] set_headers [of p] by (intro exI [of _ ?fl]) auto
qed

lemma free_list_inv_allocate:
  assumes "free_list_inv s"
  shows "free_list_inv (snd (allocate s))"
proof (cases s)
  case (Pair p m)
  show ?thesis
  proof (cases "headHeader p = NULL")
    case True
    then show ?thesis using assms Pair by simp
  next
    case False
    from assms Pair obtain fl where fl: "free_chain m (headHeader p) fl" "distinct fl"
      "set fl \<subseteq> headers p" "\<forall>h \<in> set fl. m h \<noteq> blockInUseFlag p"
      "\<forall>h \<in> headers p - set fl. m h = blockInUseFlag p"
      by (auto simp: free_list_inv_def)
    from fl(1) False obtain xs where xs: "fl = headHeader p # xs" "free_chain m (m (headHeader p)) xs"
      by (cases fl) auto
    let ?x = "headHeader p"
    let ?m' = "m(?x := blockInUseFlag p)"
    have x: "?x \<notin> set xs" using fl(2) xs(1) by simp
    have "free_chain ?m' (m ?x) xs" using xs(2) x by (simp add: free_chain_upd)
    moreover have "distinct xs" "set xs \<subseteq> headers p" using fl(2,3) xs(1) by simp_all
    moreover have "\<forall>h \<in> set xs. ?m' h \<noteq> blockInUseFlag p" using fl(4) x xs(1) by auto
    moreover have "\<forall>h \<in> headers p - set xs. ?m' h = blockInUseFlag p" using fl(5) xs(1) by auto
    ultimately have "free_list_inv (p\<lparr>headHeader := m ?x\<rparr>, ?m')"
      unfolding free_list_inv_def by (intro exI [of _ xs]) simp
    then show ?thesis using Pair False by (simp add: Let_def)
  qed
qed

lemma free_list_inv_deallocate:
  assumes inv: "free_list_inv s" and c: "constructed (fst s)" and b: "buffer_in_memory (fst s)"
    and nf: "blockInUseFlag (fst s) \<notin> headers (fst s)"
  shows "free_list_inv (snd (deallocate s a))"
proof (cases s)
  case (Pair p m)
  show ?thesis
  proof (cases "isBlockInUse p m a")
    case False
    then show ?thesis using inv Pair by simp
  next
    case True
    let ?x = "a - headerSize p"
    let ?m' = "m(?x := headHeader p)"
    from c b nf Pair have c': "constructed p" and b': "buffer_in_memory p"
      and flag: "blockInUseFlag p \<notin> headers p" by simp_all
    from True have addr: "isBlockAddress p a" and used: "m ?x = blockInUseFlag p"
      by (auto simp: isBlockInUse_def Let_def split: if_splits)
    have "headerSize p = 8" using c' unfolding constructed_def by blast
    then have xh: "?x \<in> headers p" and xn: "?x \<noteq> NULL"
      using isBlockAddress_is_header [OF c' b' addr] header_at_neq_0 [OF c' b']
      by (auto simp: headers_def NULL_def)
    from inv Pair obtain fl where fl: "free_chain m (headHeader p) fl" "distinct fl"
      "set fl \<subseteq> headers p" "\<forall>h \<in> set fl. m h \<noteq> blockInUseFlag p"
      "\<forall>h \<in> headers p - set fl. m h = blockInUseFlag p"
      by (auto simp: free_list_inv_def)
    have x: "?x \<notin> set fl" using fl(4) used by auto
    have f1: "blockInUseFlag p \<noteq> NULL" using c' by (simp add: constructed_def NULL_def)
    have hd: "headHeader p \<noteq> blockInUseFlag p"
      using free_chain_head [OF fl(1)] fl(3) flag f1 by auto
    have "free_chain ?m' ?x (?x # fl)" using fl(1) x xn by (simp add: free_chain_upd)
    moreover have "distinct (?x # fl)" "set (?x # fl) \<subseteq> headers p"
      using fl(2,3) x xh by simp_all
    moreover have "\<forall>h \<in> set (?x # fl). ?m' h \<noteq> blockInUseFlag p"
      using fl(4) x hd by auto
    moreover have "\<forall>h \<in> headers p - set (?x # fl). ?m' h = blockInUseFlag p"
      using fl(5) by auto
    ultimately have "free_list_inv (p\<lparr>headHeader := ?x\<rparr>, ?m')"
      unfolding free_list_inv_def by (intro exI [of _ "?x # fl"]) simp
    then show ?thesis using Pair True by (simp add: Let_def)
  qed
qed

lemma free_list_inv_run:
  assumes c: "constructed (fst s)" and b: "buffer_in_memory (fst s)"
    and st: "blockInUseFlag (fst s) \<notin> headers (fst s)" and inv: "free_list_inv s"
  shows "free_list_inv (run s cs)"
proof (induction cs rule: rev_induct)
  case Nil
  then show ?case using inv by (simp add: run_def)
next
  case (snoc x xs)
  obtain h where h: "fst (run s xs) = (fst s)\<lparr>headHeader := h\<rparr>"
    using run_fst by blast
  have "constructed (fst (run s xs))" "buffer_in_memory (fst (run s xs))"
    "blockInUseFlag (fst (run s xs)) \<notin> headers (fst (run s xs))"
    using c b st unfolding h by simp_all
  then show ?case
    using snoc free_list_inv_allocate [of "run s xs"] free_list_inv_deallocate [of "run s xs"]
    by (cases x) (simp_all add: run_snoc)
qed

subsection \<open>Allocating along the free list\<close>

lemma allocate_n_chain:
  "free_chain m (headHeader p) fl \<Longrightarrow> distinct fl \<Longrightarrow> n \<le> length fl \<Longrightarrow>
   \<exists>h m'. allocate_n n (p, m)
            = (Inr (map (\<lambda>x. x + getHeaderSize) (take n fl)), (p\<lparr>headHeader := h\<rparr>, m'))
          \<and> free_chain m' h (drop n fl)"
proof (induction n arbitrary: p m fl)
  case 0
  have "allocate_n 0 (p, m) = (Inr (map (\<lambda>x. x + getHeaderSize) (take 0 fl)),
          (p\<lparr>headHeader := headHeader p\<rparr>, m))"
    by simp
  then show ?case using "0.prems"(1) by (metis drop0)
next
  case (Suc n)
  from Suc.prems(3) obtain x xs where fl: "fl = x # xs" by (cases fl) auto
  with Suc.prems have x: "headHeader p = x" "x \<noteq> NULL" "free_chain m (m x) xs"
    "x \<notin> set xs" "distinct xs" "n \<le> length xs"
    by auto
  let ?p1 = "p\<lparr>headHeader := m x\<rparr>"
  let ?m1 = "m(x := blockInUseFlag p)"
  have a: "allocate (p, m) = (Inr (x + getHeaderSize), (?p1, ?m1))"
    using x(1,2) by (simp add: Let_def)
  have "free_chain ?m1 (headHeader ?p1) xs" using x(3,4) by (simp add: free_chain_upd)
  then obtain h m' where
    r: "allocate_n n (?p1, ?m1)
          = (Inr (map (\<lambda>x. x + getHeaderSize) (take n xs)), (?p1\<lparr>headHeader := h\<rparr>, m'))"
    and ch: "free_chain m' h (drop n xs)"
    using Suc.IH [of ?m1 ?p1 xs] x(5,6) by blast
  have "allocate_n (Suc n) (p, m)
          = (Inr (map (\<lambda>x. x + getHeaderSize) (take (Suc n) fl)), (p\<lparr>headHeader := h\<rparr>, m'))"
    using a r fl by simp
  then show ?case using ch fl by auto
qed

lemma unat_block_at:
  assumes c: "constructed p" and b: "buffer_in_memory p" and k: "k < unat (maxBlocks p)"
  shows "unat (header_at p k + 8) = unat (startHeader p) + 8 + k * unat (blockWithHeaderSize p)"
proof -
  define S where "S = unat (blockWithHeaderSize p)"
  define M where "M = unat (maxBlocks p)"
  define A where "A = unat (startHeader p)"
  have S: "9 \<le> S" using stride_ge_9 [OF c] by (simp add: S_def)
  have AM: "A + S * M \<le> 2 ^ 64"
    using b by (simp add: buffer_in_memory_def S_def M_def A_def)
  have uh: "unat (header_at p k) = A + k * S"
    using unat_header_at [OF c b k] by (simp add: A_def S_def)
  have "Suc k * S \<le> M * S" using k unfolding M_def by (intro mult_le_mono1) simp
  then have lt: "A + k * S + S \<le> 2 ^ 64"
    using AM by (simp add: mult.commute)
  have "unat (header_at p k) + unat (8 :: 64 word) < 2 ^ 64" using uh lt S by simp
  then have "unat (header_at p k + 8) = unat (header_at p k) + unat (8 :: 64 word)"
    by (rule unat_add64)
  then show ?thesis using uh by (simp add: A_def S_def)
qed

lemma fresh_allocate_n:
  assumes new: "BlockAllocator_new blockByteSize numOfBlocks memoryPool malloc m0 = Some (Inr s)"
    and b: "buffer_in_memory (fst s)" and n: "n \<le> unat numOfBlocks"
  shows "\<exists>h m'. allocate_n n s
            = (Inr (map (\<lambda>k. header_at (fst s) k + 8) [0 ..< n]), ((fst s)\<lparr>headHeader := h\<rparr>, m'))
          \<and> free_chain m' h (map (header_at (fst s)) [n ..< unat numOfBlocks])"
proof -
  obtain p m where s: "s = (p, m)" by (cases s)
  note facts = BlockAllocator_new_Inr [OF new [unfolded s]]
  let ?M = "unat (maxBlocks p)"
  let ?fl = "map (header_at p) [0 ..< ?M]"
  have c: "constructed p" by (rule facts(1))
  have b': "buffer_in_memory p" using b s by simp
  have M: "0 < ?M" using c unat_gt_0 [of "maxBlocks p"] unfolding constructed_def by blast
  have "free_chain m (header_at p 0) ?fl"
    using fresh_chain [OF c b' buildBlocksList_result(1,2) [OF c b' facts(7)] refl M] by simp
  then have chain: "free_chain m (headHeader p) ?fl"
    using facts(4) by (simp add: header_at_def)
  have n': "n \<le> length ?fl" using n facts(3) by simp
  have tk: "map (\<lambda>x. x + getHeaderSize) (take n ?fl) = map (\<lambda>k. header_at p k + 8) [0 ..< n]"
    using n' by (simp add: take_map getHeaderSize_def comp_def)
  have dr: "drop n ?fl = map (header_at p) [n ..< ?M]"
    by (simp add: drop_map)
  show ?thesis
    using allocate_n_chain [OF chain distinct_headers [OF c b'] n'] 
    unfolding tk dr s using facts(3) by simp
qed

subsection \<open>The example pool\<close>

lemmas new_eval = BlockAllocator_new_def isSizeCorrect_def SIZE_MAX_def getHeaderSize_def
  NULL_def buildBlocksList_def buildBlocksList_loop.simps Let_def

lemma new_64x4:
  "BlockAllocator_new 64 4 4096 (\<lambda>_. 0) (\<lambda>_. 0) = Some (Inr (pool_64x4, memory_64x4))"
  by (simp add: new_eval pool_64x4_def memory_64x4_def)

lemma buffer_64x4: "buffer_in_memory pool_64x4"
  by (simp add: buffer_in_memory_def pool_64x4_def)

lemma constructed_64x4: "constructed pool_64x4"
  by (simp add: constructed_def pool_64x4_def)

lemma flag_64x4: "blockInUseFlag pool_64x4 \<notin> headers pool_64x4"
  by (rule in_use_flag_not_header [OF constructed_64x4 buffer_64x4]) (simp add: pool_64x4_def)

subsection \<open>Members after a sequence of calls\<close>

lemma run_blockSize: "blockSize (fst (run s cs)) = blockSize (fst s)"
proof -
  obtain h where "fst (run s cs) = (fst s)\<lparr>headHeader := h\<rparr>" using run_fst by blast
  then show ?thesis by simp
qed

lemma run_poolType: "poolType (fst (run s cs)) = poolType (fst s)"
proof -
  obtain h where "fst (run s cs) = (fst s)\<lparr>headHeader := h\<rparr>" using run_fst by blast
  then show ?thesis by simp
qed

lemma run_startHeader: "startHeader (fst (run s cs)) = startHeader (fst s)"
proof -
  obtain h where "fst (run s cs) = (fst s)\<lparr>headHeader := h\<rparr>" using run_fst by blast
  then show ?thesis by simp
qed

lemma run_constructed: "constructed (fst (run s cs)) = constructed (fst s)"
proof -
  obtain h where "fst (run s cs) = (fst s)\<lparr>headHeader := h\<rparr>" using run_fst by blast
  then show ?thesis by simp
qed

lemma BlockAllocator_new_accepts:
  assumes "blockByteSize \<noteq> 0" "numOfBlocks \<noteq> 0"
    and "isSizeCorrect getHeaderSize blockByteSize numOfBlocks"
    and "(if memoryPool = NULL then malloc ((blockByteSize + 8) * numOfBlocks) else memoryPool)
           \<noteq> NULL"
  shows "\<exists>s. BlockAllocator_new blockByteSize numOfBlocks memoryPool malloc m = Some (Inr s)"
proof -
  obtain r where r: "BlockAllocator_new blockByteSize numOfBlocks memoryPool malloc m = Some r"
    using BlockAllocator_new_total by blast
  have "r \<noteq> Inl e" for e
    using r assms
    by (cases "memoryPool = NULL")
       (auto simp: BlockAllocator_new_def Let_def getHeaderSize_def split: option.splits)
  then show ?thesis using r by (cases r) auto
qed

subsection \<open>The head of the free list is a block header\<close>

text \<open>
  When the in-use marker is itself a header address the free-list invariant can break, but
  \<open>headHeader\<close> and the contents of the headers still stay among the header addresses and
  \<open>NULL\<close>.
\<close>

lemma closed_step:
  assumes c: "constructed (fst s)" and b: "buffer_in_memory (fst s)"
    and f: "blockInUseFlag (fst s) \<in> headers (fst s)"
    and hd: "headHeader (fst s) \<in> headers (fst s) \<union> {NULL}"
    and cl: "\<forall>h \<in> headers (fst s). snd s h \<in> headers (fst s) \<union> {NULL}"
  shows "headHeader (fst (step s x)) \<in> headers (fst s) \<union> {NULL}
       \<and> (\<forall>h \<in> headers (fst s). snd (step s x) h \<in> headers (fst s) \<union> {NULL})"
proof (cases s)
  case (Pair p m)
  note facts = c b f hd cl
  show ?thesis
  proof (cases x)
    case Allocate
    show ?thesis
    proof (cases "headHeader p = NULL")
      case True
      then show ?thesis using facts Pair Allocate by simp
    next
      case False
      then have "headHeader p \<in> headers p" using hd Pair by simp
      then have "m (headHeader p) \<in> headers p \<union> {NULL}" using cl Pair by simp
      then show ?thesis using facts Pair Allocate False by (simp add: Let_def)
    qed
  next
    case (Deallocate a)
    show ?thesis
    proof (cases "isBlockInUse p m a")
      case False
      then show ?thesis using facts Pair Deallocate by simp
    next
      case True
      from c b Pair have c': "constructed p" and b': "buffer_in_memory p" by simp_all
      from True have addr: "isBlockAddress p a"
        by (auto simp: isBlockInUse_def split: if_splits)
      have "headerSize p = 8" using c' unfolding constructed_def by blast
      then have "a - headerSize p \<in> headers p"
        using isBlockAddress_is_header [OF c' b' addr] by (auto simp: headers_def)
      then show ?thesis using facts Pair Deallocate True by (simp add: Let_def)
    qed
  qed
qed

lemma closed_run:
  assumes c: "constructed (fst s)" and b: "buffer_in_memory (fst s)"
    and f: "blockInUseFlag (fst s) \<in> headers (fst s)"
    and hd: "headHeader (fst s) \<in> headers (fst s) \<union> {NULL}"
    and cl: "\<forall>h \<in> headers (fst s). snd s h \<in> headers (fst s) \<union> {NULL}"
  shows "headHeader (fst (run s cs)) \<in> headers (fst s) \<union> {NULL}
       \<and> (\<forall>h \<in> headers (fst s). snd (run s cs) h \<in> headers (fst s) \<union> {NULL})"
proof (induction cs rule: rev_induct)
  case Nil
  then show ?case using hd cl by (simp add: run_def)
next
  case (snoc x xs)
  obtain h where h: "fst (run s xs) = (fst s)\<lparr>headHeader := h\<rparr>"
    using run_fst by blast
  have same: "headers (fst (run s xs)) = headers (fst s)"
    "blockInUseFlag (fst (run s xs)) = blockInUseFlag (fst s)"
    "constructed (fst (run s xs))" "buffer_in_memory (fst (run s xs))"
    using c b unfolding h by simp_all
  show ?case
    using closed_step [of "run s xs" x] snoc f unfolding same run_snoc
    using same(3,4) by simp
qed

lemma head_is_header:
  assumes new: "BlockAllocator_new blockByteSize numOfBlocks memoryPool malloc m0 = Some (Inr s0)"
    and b: "buffer_in_memory (fst s0)"
  shows "headHeader (fst (run s0 cs)) \<in> headers (fst s0) \<union> {NULL}"
proof -
  obtain p m where s0: "s0 = (p, m)" by (cases s0)
  note facts = BlockAllocator_new_Inr [OF new [unfolded s0]]
  have c: "constructed p" by (rule facts(1))
  have b': "buffer_in_memory p" using b s0 by simp
  have M: "0 < unat (maxBlocks p)"
    using c unat_gt_0 [of "maxBlocks p"] unfolding constructed_def by blast
  show ?thesis
  proof (cases "blockInUseFlag p \<in> headers p")
    case True
    have "header_at p 0 \<in> headers p" using M by (auto simp: headers_def)
    then have hd: "headHeader p \<in> headers p \<union> {NULL}"
      using facts(4) by (simp add: header_at_def)
    have cl: "m h \<in> headers p \<union> {NULL}" if "h \<in> headers p" for h
    proof -
      from that obtain k where k: "k < unat (maxBlocks p)" "h = header_at p k"
        by (auto simp: headers_def)
      show ?thesis
      proof (cases "Suc k < unat (maxBlocks p)")
        case True
        then have "m h = header_at p (Suc k)"
          using buildBlocksList_result(1) [OF c b' facts(7)] k by simp
        then show ?thesis using True by (auto simp: headers_def)
      next
        case False
        then have "k = unat (maxBlocks p) - 1" using k(1) by simp
        then show ?thesis using buildBlocksList_result(2) [OF c b' facts(7)] k by simp
      qed
    qed
    show ?thesis
      using closed_run [of s0 cs] c b' True hd cl unfolding s0 by simp
  next
    case False
    have "free_list_inv (p, m)"
      by (rule free_list_inv_fresh [OF c b' False facts(4) facts(7)])
    then have "free_list_inv (run s0 cs)"
      using free_list_inv_run [of s0 cs] c b' False unfolding s0 by simp
    then obtain fl where fl: "free_chain (snd (run s0 cs)) (headHeader (fst (run s0 cs))) fl"
      "set fl \<subseteq> headers (fst (run s0 cs))"
      unfolding free_list_inv_def by blast
    obtain h where "fst (run s0 cs) = (fst s0)\<lparr>headHeader := h\<rparr>" using run_fst by blast
    then have "headers (fst (run s0 cs)) = headers (fst s0)" by simp
    then show ?thesis using free_chain_head [OF fl(1)] fl(2) by auto
  qed
qed

subsection \<open>A block freed twice\<close>

lemma double_free_rejected:
  assumes new: "BlockAllocator_new blockByteSize numOfBlocks memoryPool malloc m0 = Some (Inr s0)"
    and b: "buffer_in_memory (fst s0)"
    and f: "blockInUseFlag (fst s0) \<notin> headers (fst s0)"
    and ok: "fst (deallocate (run s0 cs) x) = Inr ()"
  shows "fst (deallocate (snd (deallocate (run s0 cs) x)) x) = Inl InvalidBlockAddressException"
proof -
  obtain p0 m0' where s0: "s0 = (p0, m0')" by (cases s0)
  note facts = BlockAllocator_new_Inr [OF new [unfolded s0]]
  obtain p m where r: "run s0 cs = (p, m)" by (cases "run s0 cs")
  obtain h where h: "fst (run s0 cs) = (fst s0)\<lparr>headHeader := h\<rparr>" using run_fst by blast
  then have same: "headers p = headers p0" "blockInUseFlag p = blockInUseFlag p0"
    using r s0 by auto
  have "free_list_inv (p0, m0')"
    using free_list_inv_fresh [OF facts(1) _ _ facts(4) facts(7)] b f s0 by simp
  then have "free_list_inv (p, m)"
    using free_list_inv_run [of s0 cs] facts(1) b f s0 r by simp
  then obtain fl where fl: "free_chain m (headHeader p) fl" "set fl \<subseteq> headers p"
    unfolding free_list_inv_def by auto
  have "blockInUseFlag p \<noteq> NULL"
    using facts(1) same(2) by (simp add: constructed_def NULL_def)
  then have "headHeader p \<noteq> blockInUseFlag p"
    using free_chain_head [OF fl(1)] fl(2) f s0 same by auto
  moreover from ok r have "isBlockInUse p m x" by (auto split: if_splits)
  ultimately show ?thesis
    using r by (simp add: Let_def isBlockInUse_def)
qed

subsection \<open>A block never handed out\<close>

lemma fresh_not_in_use:
  assumes new: "BlockAllocator_new blockByteSize numOfBlocks memoryPool malloc m0 = Some (Inr s0)"
    and b: "buffer_in_memory (fst s0)"
    and f: "blockInUseFlag (fst s0) \<notin> headers (fst s0)"
  shows "fst (deallocate s0 a) = Inl InvalidBlockAddressException"
proof -
  obtain p m where s0: "s0 = (p, m)" by (cases s0)
  note facts = BlockAllocator_new_Inr [OF new [unfolded s0]]
  have c: "constructed p" by (rule facts(1))
  have b': "buffer_in_memory p" and f': "blockInUseFlag p \<notin> headers p"
    using b f s0 by simp_all
  have hs: "headerSize p = 8" and f1: "blockInUseFlag p \<noteq> NULL"
    using c by (simp_all add: constructed_def NULL_def)
  have "m (a - headerSize p) \<noteq> blockInUseFlag p" if ia: "isBlockAddress p a"
  proof -
    obtain k where k: "k < unat (maxBlocks p)" "a - 8 = header_at p k"
      using isBlockAddress_is_header [OF c b' ia] by blast
    show ?thesis
    proof (cases "Suc k < unat (maxBlocks p)")
      case True
      then have "m (a - 8) = header_at p (Suc k)"
        using buildBlocksList_result(1) [OF c b' facts(7)] k by simp
      then have "m (a - 8) \<in> headers p" using True by (auto simp: headers_def)
      then show ?thesis using f' hs by auto
    next
      case False
      then have "k = unat (maxBlocks p) - 1" using k(1) by simp
      then have "m (a - 8) = NULL"
        using buildBlocksList_result(2) [OF c b' facts(7)] k by simp
      then show ?thesis using f1 hs by simp
    qed
  qed
  then show ?thesis using s0 by (auto simp: isBlockInUse_def Let_def)
qed

section \<open>The specified properties\<close>

text \<open>
  C4: construction fails with \<open>InvalidConstructorParametersException\<close> exactly when
  \<open>blockSize\<close> is 0, or \<open>maxBlocks\<close> is 0, or the product of \<open>blockSize + headerSize\<close> and
  \<open>maxBlocks\<close>, taken in unbounded arithmetic, does not fit \<open>size_t\<close>; and the check that
  decides the last, \<open>isSizeCorrect\<close>, is the division test: it rejects when
  \<open>SIZE_MAX / maxBlocks < headerSize\<close>, and otherwise accepts exactly when
  \<open>blockSize \<le> SIZE_MAX / maxBlocks - headerSize\<close>.
\<close>

theorem construction_invalid_parameters_iff:
  "(BlockAllocator_new blockByteSize numOfBlocks memoryPool malloc m
      = Some (Inl InvalidConstructorParametersException)
    \<longleftrightarrow> blockByteSize = 0 \<or> numOfBlocks = 0
        \<or> 2 ^ 64 \<le> (unat blockByteSize + unat getHeaderSize) * unat numOfBlocks)
   \<and> (isSizeCorrect getHeaderSize blockByteSize numOfBlocks
    \<longleftrightarrow> \<not> SIZE_MAX div numOfBlocks < getHeaderSize
        \<and> blockByteSize \<le> SIZE_MAX div numOfBlocks - getHeaderSize)"
proof
  have hs: "unat getHeaderSize = 8" by (simp add: getHeaderSize_def)
  show "BlockAllocator_new blockByteSize numOfBlocks memoryPool malloc m
      = Some (Inl InvalidConstructorParametersException)
    \<longleftrightarrow> blockByteSize = 0 \<or> numOfBlocks = 0
        \<or> 2 ^ 64 \<le> (unat blockByteSize + unat getHeaderSize) * unat numOfBlocks"
  proof (cases "numOfBlocks = 0")
    case True
    then show ?thesis by (simp add: BlockAllocator_new_invalid_iff)
  next
    case False
    then show ?thesis
      unfolding BlockAllocator_new_invalid_iff isSizeCorrect_iff [OF False] hs
      by (simp add: not_less)
  qed
  show "isSizeCorrect getHeaderSize blockByteSize numOfBlocks
    \<longleftrightarrow> \<not> SIZE_MAX div numOfBlocks < getHeaderSize
        \<and> blockByteSize \<le> SIZE_MAX div numOfBlocks - getHeaderSize"
    by (simp add: isSizeCorrect_def Let_def)
qed

theorem construction_invalid_parameters_iff_witness:
  "BlockAllocator_new 18446744073709551615 2 0 (\<lambda>_. 0) (\<lambda>_. 0)
     = Some (Inl InvalidConstructorParametersException)
   \<and> BlockAllocator_new 64 4 4096 (\<lambda>_. 0) (\<lambda>_. 0)
     \<noteq> Some (Inl InvalidConstructorParametersException)
   \<and> \<not> isSizeCorrect getHeaderSize 2 18446744073709551615
   \<and> isSizeCorrect getHeaderSize 64 4"
  using construction_invalid_parameters_iff [of 18446744073709551615 2 0 "\<lambda>_. 0" "\<lambda>_. 0"]
    construction_invalid_parameters_iff [of 64 4 4096 "\<lambda>_. 0" "\<lambda>_. 0"]
    construction_invalid_parameters_iff [of 2 18446744073709551615 0 "\<lambda>_. 0" "\<lambda>_. 0"]
  by (simp add: getHeaderSize_def SIZE_MAX_def)

text \<open>
  C9: for every block size of at least 1 that passes the size check, also one smaller than
  the 8 bytes of a header, construction (given a buffer) succeeds and stores \<open>blockSize\<close>
  as passed, and \<open>getBlockSize()\<close> returns that value after any sequence of calls.
\<close>

theorem blockSize_stored_as_passed:
  assumes "blockByteSize \<noteq> 0" and "numOfBlocks \<noteq> 0"
    and "isSizeCorrect getHeaderSize blockByteSize numOfBlocks"
    and "(if memoryPool = NULL then malloc ((blockByteSize + 8) * numOfBlocks) else memoryPool)
           \<noteq> NULL"
  shows "\<exists>s. BlockAllocator_new blockByteSize numOfBlocks memoryPool malloc m = Some (Inr s)
           \<and> blockSize (fst s) = blockByteSize
           \<and> (\<forall>cs. getBlockSize (fst (run s cs)) = blockByteSize)"
proof -
  obtain p m' where
    s: "BlockAllocator_new blockByteSize numOfBlocks memoryPool malloc m = Some (Inr (p, m'))"
    using BlockAllocator_new_accepts [of blockByteSize numOfBlocks memoryPool malloc m] assms
    by fastforce
  have "blockSize p = blockByteSize" by (rule BlockAllocator_new_Inr(2) [OF s])
  then show ?thesis using s by (simp add: getBlockSize_def run_blockSize)
qed

theorem blockSize_stored_as_passed_witness:
  "(1 :: 64 word) \<noteq> 0 \<and> (4 :: 64 word) \<noteq> 0 \<and> isSizeCorrect getHeaderSize 1 4
   \<and> (if (4096 :: addr) = NULL then (\<lambda>_. 0) ((1 + 8) * (4 :: 64 word)) else 4096) \<noteq> NULL
   \<and> (1 :: 64 word) < getHeaderSize
   \<and> (\<exists>s. BlockAllocator_new 1 4 4096 (\<lambda>_. 0) (\<lambda>_. 0) = Some (Inr s)
           \<and> blockSize (fst s) = 1
           \<and> (\<forall>cs. getBlockSize (fst (run s cs)) = 1))"
proof -
  have h: "(1 :: 64 word) \<noteq> 0" "(4 :: 64 word) \<noteq> 0" "isSizeCorrect getHeaderSize 1 4"
    "(if (4096 :: addr) = NULL then (\<lambda>_. 0) ((1 + 8) * (4 :: 64 word)) else 4096) \<noteq> NULL"
    "(1 :: 64 word) < getHeaderSize"
    by (simp_all add: isSizeCorrect_def SIZE_MAX_def getHeaderSize_def NULL_def)
  show ?thesis
    using blockSize_stored_as_passed [OF h(1-4), of "\<lambda>_. 0"] h by blast
qed

text \<open>
  C8: a pool constructed over an external buffer has pool type \<open>External\<close>, and its
  destructor, after any sequence of calls, frees nothing and leaves memory as it is; a pool
  constructed without one has pool type \<open>Internal\<close>, and its destructor frees exactly once,
  the buffer that \<open>malloc\<close> returned, and leaves memory as it is.
\<close>

theorem pool_type_and_teardown:
  assumes "BlockAllocator_new blockByteSize numOfBlocks memoryPool malloc m = Some (Inr s)"
  shows "(memoryPool \<noteq> NULL \<longrightarrow>
            getPoolType (fst (run s cs)) = External
          \<and> destructor (run s cs) = ([], snd (run s cs)))
       \<and> (memoryPool = NULL \<longrightarrow>
            getPoolType (fst (run s cs)) = Internal
          \<and> destructor (run s cs)
              = ([malloc ((blockByteSize + getHeaderSize) * numOfBlocks)], snd (run s cs)))"
proof -
  obtain p m' where s: "s = (p, m')" by (cases s)
  note facts = BlockAllocator_new_Inr [OF assms [unfolded s]]
  obtain q m'' where r: "run s cs = (q, m'')" by (cases "run s cs")
  have q: "poolType q = poolType p" "startHeader q = startHeader p"
    using run_poolType [of s cs] run_startHeader [of s cs] r s by simp_all
  have "startHeader p \<noteq> NULL" using facts(1) by (simp add: constructed_def NULL_def)
  then show ?thesis
    using facts(5,6) q r
    by (cases "memoryPool = NULL") (simp_all add: getPoolType_def getHeaderSize_def)
qed

theorem pool_type_and_teardown_witness:
  "BlockAllocator_new 64 4 4096 (\<lambda>_. 0) (\<lambda>_. 0) = Some (Inr (pool_64x4, memory_64x4))
   \<and> (4096 :: addr) \<noteq> NULL \<and> (0 :: addr) = NULL
   \<and> getPoolType (fst (run (pool_64x4, memory_64x4) [Allocate])) = External
   \<and> fst (destructor (run (pool_64x4, memory_64x4) [Allocate])) = []
   \<and> (\<exists>s. BlockAllocator_new 64 4 0 (\<lambda>_. 8192) (\<lambda>_. 0) = Some (Inr s)
        \<and> getPoolType (fst (run s [Allocate])) = Internal
        \<and> fst (destructor (run s [Allocate])) = [8192])"
proof -
  obtain s where s: "BlockAllocator_new 64 4 0 (\<lambda>_. 8192) (\<lambda>_. 0) = Some (Inr s)"
    using BlockAllocator_new_accepts [of 64 4 0 "\<lambda>_. 8192" "\<lambda>_. 0"]
    by (auto simp: isSizeCorrect_def SIZE_MAX_def getHeaderSize_def NULL_def)
  show ?thesis
    using pool_type_and_teardown [OF new_64x4, of "[Allocate]"]
      pool_type_and_teardown [OF s, of "[Allocate]"] s new_64x4
    by (simp add: NULL_def)
qed

text \<open>
  C2: in every state and for every address, \<open>deallocate\<close> throws
  \<open>InvalidBlockAddressException\<close> if and only if the address is not a block address
  (\<open>isBlockAddress\<close>) or the header before it does not hold the in-use marker; and when it
  throws, the pool's members and the whole memory are as before the call. These cover the
  block that was never handed out and the block freed twice: for a pool constructed over a
  buffer that lies in the address space, with no header at the address that serves as in-use
  marker, \<open>deallocate\<close> throws for every address on the new pool, and in every state reached
  by any sequence of calls a second \<open>deallocate\<close> of the address just freed throws.
\<close>

theorem deallocate_fails_iff_not_in_use:
  "(fst (deallocate s a) = Inl InvalidBlockAddressException
      \<longleftrightarrow> \<not> isBlockAddress (fst s) a
          \<or> snd s (a - headerSize (fst s)) \<noteq> blockInUseFlag (fst s))
   \<and> (fst (deallocate s a) = Inl InvalidBlockAddressException \<longrightarrow> snd (deallocate s a) = s)
   \<and> (BlockAllocator_new blockByteSize numOfBlocks memoryPool malloc m0 = Some (Inr s0)
        \<and> buffer_in_memory (fst s0) \<and> blockInUseFlag (fst s0) \<notin> headers (fst s0)
      \<longrightarrow> fst (deallocate s0 a) = Inl InvalidBlockAddressException
        \<and> (fst (deallocate (run s0 cs) a) = Inr ()
            \<longrightarrow> fst (deallocate (snd (deallocate (run s0 cs) a)) a)
                  = Inl InvalidBlockAddressException))"
proof (intro conjI impI)
  show "fst (deallocate s a) = Inl InvalidBlockAddressException
      \<longleftrightarrow> \<not> isBlockAddress (fst s) a
          \<or> snd s (a - headerSize (fst s)) \<noteq> blockInUseFlag (fst s)"
    by (cases s) (simp add: isBlockInUse_def Let_def)
  show "snd (deallocate s a) = s" if "fst (deallocate s a) = Inl InvalidBlockAddressException"
    using that by (cases s) (simp add: Let_def split: if_splits)
next
  assume h: "BlockAllocator_new blockByteSize numOfBlocks memoryPool malloc m0 = Some (Inr s0)
        \<and> buffer_in_memory (fst s0) \<and> blockInUseFlag (fst s0) \<notin> headers (fst s0)"
  then show "fst (deallocate s0 a) = Inl InvalidBlockAddressException"
    using fresh_not_in_use by blast
  show "fst (deallocate (snd (deallocate (run s0 cs) a)) a) = Inl InvalidBlockAddressException"
    if "fst (deallocate (run s0 cs) a) = Inr ()"
    using double_free_rejected [OF _ _ _ that] h by blast
qed

theorem deallocate_fails_iff_not_in_use_witness:
  "BlockAllocator_new 64 4 4096 (\<lambda>_. 0) (\<lambda>_. 0) = Some (Inr (pool_64x4, memory_64x4))
   \<and> buffer_in_memory (fst (pool_64x4, memory_64x4))
   \<and> blockInUseFlag (fst (pool_64x4, memory_64x4)) \<notin> headers (fst (pool_64x4, memory_64x4))
   \<and> fst (deallocate (pool_64x4, memory_64x4) 4104) = Inl InvalidBlockAddressException
   \<and> snd (deallocate (pool_64x4, memory_64x4) 4104) = (pool_64x4, memory_64x4)
   \<and> \<not> isBlockAddress pool_64x4 4105
   \<and> fst (deallocate (pool_64x4, memory_64x4) 4105) = Inl InvalidBlockAddressException
   \<and> \<not> isBlockAddress pool_64x4 8200
   \<and> fst (deallocate (pool_64x4, memory_64x4) 8200) = Inl InvalidBlockAddressException
   \<and> fst (deallocate (run (pool_64x4, memory_64x4) [Allocate]) 4104) = Inr ()
   \<and> fst (deallocate (snd (deallocate (run (pool_64x4, memory_64x4) [Allocate]) 4104)) 4104)
        = Inl InvalidBlockAddressException"
proof -
  let ?s0 = "(pool_64x4, memory_64x4)"
  have h: "BlockAllocator_new 64 4 4096 (\<lambda>_. 0) (\<lambda>_. 0) = Some (Inr ?s0)
      \<and> buffer_in_memory (fst ?s0) \<and> blockInUseFlag (fst ?s0) \<notin> headers (fst ?s0)"
    using new_64x4 buffer_64x4 flag_64x4 by simp
  have n: "\<not> isBlockAddress (fst ?s0) 4105" "\<not> isBlockAddress (fst ?s0) 8200"
    by (simp_all add: isBlockAddress_def pool_64x4_def NULL_def)
  have ok: "fst (deallocate (run ?s0 [Allocate]) 4104) = Inr ()"
    by (simp add: run_def pool_64x4_def memory_64x4_def NULL_def Let_def isBlockAddress_def
          isBlockInUse_def)
  note t = deallocate_fails_iff_not_in_use
             [where blockByteSize = 64 and numOfBlocks = 4 and memoryPool = 4096
                and malloc = "\<lambda>_. 0" and ?m0.0 = "\<lambda>_. 0" and ?s0.0 = ?s0 and cs = "[Allocate]"]
  have 1: "fst (deallocate ?s0 4104) = Inl InvalidBlockAddressException"
    "snd (deallocate ?s0 4104) = ?s0"
    "fst (deallocate (snd (deallocate (run ?s0 [Allocate]) 4104)) 4104)
        = Inl InvalidBlockAddressException"
    using t [of ?s0 4104] h ok by blast+
  have 2: "fst (deallocate ?s0 4105) = Inl InvalidBlockAddressException"
    using t [of ?s0 4105] n by blast
  have 3: "fst (deallocate ?s0 8200) = Inl InvalidBlockAddressException"
    using t [of ?s0 8200] n by blast
  show ?thesis using h 1 2 3 n ok by simp
qed

text \<open>
  C3: in every state reached from a constructed pool by any sequence of calls, for every
  address \<open>x\<close> of a block in use, \<open>deallocate(x)\<close> succeeds and the \<open>allocate()\<close> that follows
  it returns \<open>x\<close>.
\<close>

theorem deallocate_then_allocate_returns_same:
  assumes "BlockAllocator_new blockByteSize numOfBlocks memoryPool malloc m0 = Some (Inr s0)"
    and "isBlockInUse (fst (run s0 cs)) (snd (run s0 cs)) x"
  shows "fst (deallocate (run s0 cs) x) = Inr ()
       \<and> fst (allocate (snd (deallocate (run s0 cs) x))) = Inr x"
proof -
  obtain p0 m0' where s0: "s0 = (p0, m0')" by (cases s0)
  obtain p m where r: "run s0 cs = (p, m)" by (cases "run s0 cs")
  have "constructed p0" by (rule BlockAllocator_new_Inr(1) [OF assms(1) [unfolded s0]])
  then have c: "constructed p" using run_constructed [of s0 cs] r s0 by simp
  then have hs: "headerSize p = 8" and st: "startHeader p \<noteq> 0"
    unfolding constructed_def by blast+
  from assms(2) r have used: "isBlockInUse p m x" by simp
  then have "isBlockAddress p x" by (auto simp: isBlockInUse_def split: if_splits)
  then have "\<not> x - 8 < startHeader p"
    using hs by (auto simp: isBlockAddress_def Let_def split: if_splits)
  then have "x - 8 \<noteq> 0" using st by (auto simp: word_gt_0)
  then show ?thesis
    using used r hs by (simp add: Let_def NULL_def getHeaderSize_def)
qed

theorem deallocate_then_allocate_returns_same_witness:
  "BlockAllocator_new 64 4 4096 (\<lambda>_. 0) (\<lambda>_. 0) = Some (Inr (pool_64x4, memory_64x4))
   \<and> fst (allocate (pool_64x4, memory_64x4)) = Inr 4104
   \<and> fst (allocate (run (pool_64x4, memory_64x4) [Allocate])) = Inr 4176
   \<and> isBlockInUse (fst (run (pool_64x4, memory_64x4) [Allocate, Allocate]))
        (snd (run (pool_64x4, memory_64x4) [Allocate, Allocate])) 4104
   \<and> fst (deallocate (run (pool_64x4, memory_64x4) [Allocate, Allocate]) 4104) = Inr ()
   \<and> fst (allocate (snd (deallocate (run (pool_64x4, memory_64x4) [Allocate, Allocate]) 4104)))
        = Inr 4104"
proof -
  have u: "isBlockInUse (fst (run (pool_64x4, memory_64x4) [Allocate, Allocate]))
        (snd (run (pool_64x4, memory_64x4) [Allocate, Allocate])) 4104"
    by (simp add: run_def pool_64x4_def memory_64x4_def Let_def NULL_def getHeaderSize_def
          isBlockInUse_def isBlockAddress_def)
  have a: "fst (allocate (pool_64x4, memory_64x4)) = Inr 4104"
    "fst (allocate (run (pool_64x4, memory_64x4) [Allocate])) = Inr 4176"
    by (simp_all add: run_def pool_64x4_def memory_64x4_def Let_def NULL_def getHeaderSize_def)
  show ?thesis
    using deallocate_then_allocate_returns_same [OF new_64x4 u] u a new_64x4 by simp
qed

text \<open>
  C1: for every pair of sizes that the constructor accepts, over a buffer that lies in the
  address space, \<open>maxBlocks\<close> successive \<open>allocate()\<close> calls on the new pool all succeed, and
  the call after them throws \<open>OutOfAllocatableMemoryException\<close>.
\<close>

theorem fresh_pool_serves_exactly_maxBlocks:
  assumes "BlockAllocator_new blockByteSize numOfBlocks memoryPool malloc m0 = Some (Inr s)"
    and "buffer_in_memory (fst s)"
  shows "\<exists>as s'. allocate_n (unat numOfBlocks) s = (Inr as, s')
           \<and> length as = unat numOfBlocks
           \<and> fst (allocate s') = Inl OutOfAllocatableMemoryException"
proof -
  obtain h m' where
    a: "allocate_n (unat numOfBlocks) s
          = (Inr (map (\<lambda>k. header_at (fst s) k + 8) [0 ..< unat numOfBlocks]),
             ((fst s)\<lparr>headHeader := h\<rparr>, m'))"
    and ch: "free_chain m' h (map (header_at (fst s)) [unat numOfBlocks ..< unat numOfBlocks])"
    using fresh_allocate_n [OF assms, of "unat numOfBlocks"] by auto
  from ch have "h = NULL" by simp
  then have "fst (allocate ((fst s)\<lparr>headHeader := h\<rparr>, m')) = Inl OutOfAllocatableMemoryException"
    by simp
  then show ?thesis using a by simp
qed

theorem fresh_pool_serves_exactly_maxBlocks_witness:
  "BlockAllocator_new 64 4 4096 (\<lambda>_. 0) (\<lambda>_. 0) = Some (Inr (pool_64x4, memory_64x4))
   \<and> buffer_in_memory (fst (pool_64x4, memory_64x4))
   \<and> (\<exists>as s'. allocate_n (unat (4 :: 64 word)) (pool_64x4, memory_64x4) = (Inr as, s')
           \<and> length as = unat (4 :: 64 word)
           \<and> fst (allocate s') = Inl OutOfAllocatableMemoryException)"
  using fresh_pool_serves_exactly_maxBlocks [OF new_64x4] buffer_64x4 new_64x4 by simp

text \<open>
  C6: on a new pool over a buffer that lies in the address space, the first \<open>n\<close> successive
  \<open>allocate()\<close> calls (\<open>n\<close> at most \<open>maxBlocks\<close>) return the addresses
  \<open>startHeader + headerSize + k * (blockSize + headerSize)\<close> for \<open>k = 0, ..., n - 1\<close>, in this
  order: they are strictly increasing, and each is exactly \<open>blockSize + headerSize\<close> above the
  one before it. The reason is the list that construction builds: \<open>headHeader\<close> is the first
  header, the header of each block but the last holds the address of the next block's
  header, and the last holds \<open>NULL\<close>.
\<close>

theorem fresh_allocations_ascending_by_stride:
  assumes "BlockAllocator_new blockByteSize numOfBlocks memoryPool malloc m0 = Some (Inr s)"
    and "buffer_in_memory (fst s)" and "n \<le> unat numOfBlocks"
  shows "\<exists>as s'. allocate_n n s = (Inr as, s')
           \<and> as = map (\<lambda>k. startHeader (fst s) + getHeaderSize
                               + of_nat k * (blockByteSize + getHeaderSize)) [0 ..< n]
           \<and> sorted_wrt (<) as
           \<and> (\<forall>k. Suc k < n \<longrightarrow>
                 unat (as ! Suc k) = unat (as ! k) + (unat blockByteSize + unat getHeaderSize))
           \<and> headHeader (fst s) = startHeader (fst s)
           \<and> (\<forall>k. Suc k < unat numOfBlocks \<longrightarrow>
                 snd s (header_at (fst s) k) = header_at (fst s) (Suc k))
           \<and> snd s (header_at (fst s) (unat numOfBlocks - 1)) = NULL"
proof -
  obtain p m where s: "s = (p, m)" by (cases s)
  note facts = BlockAllocator_new_Inr [OF assms(1) [unfolded s]]
  have c: "constructed p" by (rule facts(1))
  have b: "buffer_in_memory p" using assms(2) s by simp
  have links: "headHeader (fst s) = startHeader (fst s)"
    "\<forall>k. Suc k < unat numOfBlocks \<longrightarrow> snd s (header_at (fst s) k) = header_at (fst s) (Suc k)"
    "snd s (header_at (fst s) (unat numOfBlocks - 1)) = NULL"
    using facts(4) buildBlocksList_result(1,2) [OF c b facts(7)] facts(3) s by simp_all
  define as where "as = map (\<lambda>k. header_at p k + 8) [0 ..< n]"
  have stride: "blockWithHeaderSize p = blockByteSize + 8"
    using c facts(2) unfolding constructed_def by simp
  have S: "unat (blockWithHeaderSize p) = unat blockByteSize + 8"
    using unat_stride [OF c] facts(2) by simp
  obtain s' where a: "allocate_n n s = (Inr as, s')"
    using fresh_allocate_n [OF assms] s by (auto simp: as_def)
  have form: "as = map (\<lambda>k. startHeader (fst s) + getHeaderSize
                               + of_nat k * (blockByteSize + getHeaderSize)) [0 ..< n]"
    by (simp add: as_def s header_at_def stride getHeaderSize_def algebra_simps)
  have u: "unat (as ! k) = unat (startHeader p) + 8 + k * (unat blockByteSize + 8)" if "k < n" for k
  proof -
    have "k < unat (maxBlocks p)" using that assms(3) facts(3) by simp
    then show ?thesis using unat_block_at [OF c b, of k] that S by (simp add: as_def)
  qed
  have "as ! i < as ! j" if "i < j" "j < n" for i j
  proof -
    have "i * (unat blockByteSize + 8) < j * (unat blockByteSize + 8)" using that(1) by simp
    then have "unat (as ! i) < unat (as ! j)" using u [of i] u [of j] that by simp
    then show ?thesis by (simp add: word_less_nat_alt)
  qed
  then have sorted: "sorted_wrt (<) as"
    by (simp add: sorted_wrt_iff_nth_less as_def)
  have diff: "unat (as ! Suc k) = unat (as ! k) + (unat blockByteSize + unat getHeaderSize)"
    if "Suc k < n" for k
    using u [of k] u [of "Suc k"] that by (simp add: getHeaderSize_def)
  show ?thesis using a form sorted diff links by blast
qed

theorem fresh_allocations_ascending_by_stride_witness:
  "BlockAllocator_new 64 4 4096 (\<lambda>_. 0) (\<lambda>_. 0) = Some (Inr (pool_64x4, memory_64x4))
   \<and> buffer_in_memory (fst (pool_64x4, memory_64x4)) \<and> (4 :: nat) \<le> unat (4 :: 64 word)
   \<and> (\<exists>s'. allocate_n 4 (pool_64x4, memory_64x4) = (Inr [4104, 4104 + 72, 4104 + 144, 4104 + 216], s'))
   \<and> sorted_wrt (<) [4104, 4104 + 72, 4104 + 144, 4104 + (216 :: 64 word)]
   \<and> memory_64x4 (header_at pool_64x4 0) = header_at pool_64x4 1
   \<and> memory_64x4 (header_at pool_64x4 3) = NULL"
proof -
  have n: "[0 ..< 4] = [0, 1, 2, 3 :: nat]" by (simp add: upt_rec)
  have st: "startHeader pool_64x4 = 4096" by (simp add: pool_64x4_def)
  have l: "memory_64x4 (header_at pool_64x4 0) = header_at pool_64x4 1"
    "memory_64x4 (header_at pool_64x4 3) = NULL"
    by (simp_all add: memory_64x4_def header_at_def pool_64x4_def NULL_def)
  show ?thesis
    using fresh_allocations_ascending_by_stride [OF new_64x4, of 4] buffer_64x4 new_64x4 l
    by (simp add: n st getHeaderSize_def)
qed

text \<open>
  C5: for a pool constructed over a buffer that lies in the address space, in every state
  reached by any sequence of calls and for every address \<open>a\<close>, \<open>isBlockAddress(a)\<close> is true if
  and only if \<open>a = startHeader + headerSize + k * (blockSize + headerSize)\<close> for some
  \<open>k < maxBlocks\<close>. It is false when \<open>a\<close> is \<open>NULL\<close>, when \<open>a - headerSize\<close> lies below
  \<open>startHeader\<close> or above \<open>endHeader\<close>, and when \<open>a - headerSize - startHeader\<close> is not a
  multiple of \<open>blockSize + headerSize\<close>; and it is true of every address that \<open>allocate()\<close>
  returns.
\<close>

theorem isBlockAddress_iff_block_of_pool:
  assumes "BlockAllocator_new blockByteSize numOfBlocks memoryPool malloc m0 = Some (Inr s0)"
    and "buffer_in_memory (fst s0)"
  shows "(isBlockAddress (fst (run s0 cs)) a
            \<longleftrightarrow> (\<exists>k < unat numOfBlocks.
                  a = startHeader (fst s0) + getHeaderSize
                        + of_nat k * (blockByteSize + getHeaderSize)))
       \<and> (a = NULL \<or> a - getHeaderSize < startHeader (fst s0)
            \<or> endHeader (fst s0) < a - getHeaderSize
            \<or> (a - getHeaderSize - startHeader (fst s0)) mod (blockByteSize + getHeaderSize) \<noteq> 0
          \<longrightarrow> \<not> isBlockAddress (fst (run s0 cs)) a)
       \<and> (fst (allocate (run s0 cs)) = Inr a \<longrightarrow> isBlockAddress (fst (run s0 cs)) a)"
proof -
  obtain p m where s0: "s0 = (p, m)" by (cases s0)
  note facts = BlockAllocator_new_Inr [OF assms(1) [unfolded s0]]
  have c: "constructed p" by (rule facts(1))
  have b: "buffer_in_memory p" using assms(2) s0 by simp
  obtain h where h: "fst (run s0 cs) = p\<lparr>headHeader := h\<rparr>"
    using run_fst [of s0 cs] s0 by auto
  have same: "isBlockAddress (fst (run s0 cs)) a = isBlockAddress p a" for a
    unfolding h by simp
  have meta: "headerSize p = 8" "blockWithHeaderSize p = blockByteSize + 8"
    using c facts(2) unfolding constructed_def by simp_all
  have form: "header_at p k + 8
      = startHeader p + getHeaderSize + of_nat k * (blockByteSize + getHeaderSize)" for k
    by (simp add: header_at_def meta getHeaderSize_def algebra_simps)
  have 1: "isBlockAddress p a
            \<longleftrightarrow> (\<exists>k < unat numOfBlocks.
                  a = startHeader p + getHeaderSize + of_nat k * (blockByteSize + getHeaderSize))"
    using isBlockAddress_iff [OF c b, of a] facts(3) by (simp add: form)
  have 2: "\<not> isBlockAddress p a"
    if "a = NULL \<or> a - getHeaderSize < startHeader p \<or> endHeader p < a - getHeaderSize
        \<or> (a - getHeaderSize - startHeader p) mod (blockByteSize + getHeaderSize) \<noteq> 0"
  proof
    assume "isBlockAddress p a"
    then have "a \<noteq> NULL" "\<not> a - 8 < startHeader p" "\<not> endHeader p < a - 8"
      "(a - 8 - startHeader p) mod (blockByteSize + 8) = 0"
      unfolding isBlockAddress_def Let_def meta by (simp_all split: if_splits)
    then show False using that unfolding getHeaderSize_def by simp
  qed
  have 3: "isBlockAddress p a" if al: "fst (allocate (run s0 cs)) = Inr a"
  proof -
    obtain q m' where r: "run s0 cs = (q, m')" by (cases "run s0 cs")
    from al r have nz: "headHeader q \<noteq> NULL" and a: "a = headHeader q + 8"
      by (auto simp: Let_def getHeaderSize_def split: if_splits)
    have "headHeader q \<in> headers p \<union> {NULL}"
      using head_is_header [OF assms, of cs] r s0 by simp
    then obtain k where "k < unat (maxBlocks p)" "headHeader q = header_at p k"
      using nz by (auto simp: headers_def)
    then show ?thesis using isBlockAddress_header_at [OF c b, of k] a by simp
  qed
  show ?thesis
    unfolding same using 1 2 3 s0 by simp
qed

theorem isBlockAddress_iff_block_of_pool_witness:
  "BlockAllocator_new 64 4 4096 (\<lambda>_. 0) (\<lambda>_. 0) = Some (Inr (pool_64x4, memory_64x4))
   \<and> buffer_in_memory (fst (pool_64x4, memory_64x4))
   \<and> (3 :: nat) < unat (4 :: 64 word)
   \<and> isBlockAddress (fst (run (pool_64x4, memory_64x4) [Allocate])) (4096 + 8 + 3 * (64 + 8))
   \<and> (4175 - getHeaderSize - startHeader pool_64x4) mod (64 + getHeaderSize) \<noteq> 0
   \<and> \<not> isBlockAddress (fst (run (pool_64x4, memory_64x4) [Allocate])) 4175
   \<and> fst (allocate (run (pool_64x4, memory_64x4) [Allocate])) = Inr 4176
   \<and> isBlockAddress (fst (run (pool_64x4, memory_64x4) [Allocate])) 4176"
proof -
  let ?p = "fst (run (pool_64x4, memory_64x4) [Allocate])"
  have b: "buffer_in_memory (fst (pool_64x4, memory_64x4))" using buffer_64x4 by simp
  have a: "fst (allocate (run (pool_64x4, memory_64x4) [Allocate])) = Inr 4176"
    by (simp add: run_def pool_64x4_def memory_64x4_def Let_def NULL_def getHeaderSize_def)
  have m: "(4175 - getHeaderSize - startHeader pool_64x4) mod (64 + getHeaderSize) \<noteq> 0"
    by (simp add: pool_64x4_def getHeaderSize_def)
  have "\<exists>k < unat (4 :: 64 word).
          (4096 + 8 + 3 * (64 + 8) :: 64 word)
            = startHeader (fst (pool_64x4, memory_64x4)) + getHeaderSize
                + of_nat k * (64 + getHeaderSize)"
    by (rule exI [of _ 3]) (simp add: pool_64x4_def getHeaderSize_def)
  then have 1: "isBlockAddress ?p (4096 + 8 + 3 * (64 + 8))"
    using isBlockAddress_iff_block_of_pool
            [OF new_64x4 b, of "[Allocate]" "4096 + 8 + 3 * (64 + 8)"]
    by blast
  have m': "(4175 - getHeaderSize - startHeader (fst (pool_64x4, memory_64x4)))
               mod (64 + getHeaderSize) \<noteq> 0"
    using m by simp
  have 2: "\<not> isBlockAddress ?p 4175"
    using isBlockAddress_iff_block_of_pool [OF new_64x4 b, of "[Allocate]" 4175] m'
    by blast
  have 3: "isBlockAddress ?p 4176"
    using isBlockAddress_iff_block_of_pool [OF new_64x4 b, of "[Allocate]" 4176] a
    by blast
  show ?thesis
    using 1 2 3 a m new_64x4 buffer_64x4 by simp
qed

text \<open>
  C7: for a pool constructed over a buffer that lies in the address space and has no header
  at the address that serves as in-use marker, every state reached by any sequence of
  \<open>allocate\<close> and \<open>deallocate\<close> calls, failed ones included, satisfies the free-list invariant:
  the chain from \<open>headHeader\<close> along \<open>next\<close> is finite, ends at \<open>NULL\<close>, visits no block
  twice, visits only headers of blocks of the pool that do not hold the in-use marker, and
  every block header off the chain holds the in-use marker. One more \<open>allocate\<close> or
  \<open>deallocate\<close> keeps it.
\<close>

theorem free_list_invariant_in_reachable_states:
  assumes "BlockAllocator_new blockByteSize numOfBlocks memoryPool malloc m0 = Some (Inr s0)"
    and "buffer_in_memory (fst s0)"
    and "blockInUseFlag (fst s0) \<notin> headers (fst s0)"
  shows "free_list_inv (run s0 cs)
       \<and> free_list_inv (snd (allocate (run s0 cs)))
       \<and> free_list_inv (snd (deallocate (run s0 cs) a))"
proof -
  obtain p m where s0: "s0 = (p, m)" by (cases s0)
  note facts = BlockAllocator_new_Inr [OF assms(1) [unfolded s0]]
  have c: "constructed (fst s0)" using facts(1) s0 by simp
  have "free_list_inv (p, m)"
    using free_list_inv_fresh [OF facts(1) _ _ facts(4) facts(7)] assms(2,3) s0 by simp
  then have inv: "free_list_inv (run s0 cs')" for cs'
    using free_list_inv_run [OF c assms(2,3)] s0 by simp
  have "free_list_inv (run s0 (cs @ [Allocate]))"
    "free_list_inv (run s0 (cs @ [Deallocate a]))"
    by (rule inv)+
  then show ?thesis using inv [of cs] by (simp add: run_snoc)
qed

theorem free_list_invariant_in_reachable_states_witness:
  "BlockAllocator_new 64 4 4096 (\<lambda>_. 0) (\<lambda>_. 0) = Some (Inr (pool_64x4, memory_64x4))
   \<and> buffer_in_memory (fst (pool_64x4, memory_64x4))
   \<and> blockInUseFlag (fst (pool_64x4, memory_64x4)) \<notin> headers (fst (pool_64x4, memory_64x4))
   \<and> free_list_inv (run (pool_64x4, memory_64x4) [Allocate, Allocate, Deallocate 4104])
   \<and> free_list_inv (snd (allocate
        (run (pool_64x4, memory_64x4) [Allocate, Allocate, Deallocate 4104])))
   \<and> free_list_inv (snd (deallocate
        (run (pool_64x4, memory_64x4) [Allocate, Allocate, Deallocate 4104]) 4176))"
  using free_list_invariant_in_reachable_states
          [OF new_64x4, of "[Allocate, Allocate, Deallocate 4104]" 4176]
    new_64x4 buffer_64x4 flag_64x4
  by simp

end
